theory Spec2Isabelle
  imports Main "HOL-Library.Sublist"
begin

section \<open>Error envelope (middleware/error-handler.ts)\<close>

text \<open>
  The closed enum \<open>ERROR_CODES\<close> and the class \<open>MCPError\<close>. The constructor of
  \<open>MCPError\<close> stores its four arguments; the defaults (500, false) are never used by the
  functions modelled here, all of which pass four arguments.
\<close>

datatype ERROR_CODES =
    INVALID_REPO
  | SANDBOX_NOT_FOUND
  | GITHUB_AUTH_FAILED
  | RATE_LIMIT_EXCEEDED
  | INVALID_BRANCH
  | PATH_TRAVERSAL
  | TOKEN_EXPIRED
  | SANDBOX_TIMEOUT
  | FILE_SIZE_EXCEEDED
  | QUOTA_EXCEEDED
  | PERMISSION_DENIED
  | INTERNAL_ERROR
  | VALIDATION_ERROR

record MCPError =
  code :: ERROR_CODES
  message :: string
  statusCode :: int
  retryable :: bool

section \<open>Numbers in template strings\<close>

text \<open>
  A template literal \<open>${n}\<close> renders an integral number in decimal, with a leading minus
  sign when it is negative. (Numbers here are integers well below \<open>10^21\<close>, where
  JavaScript switches to exponent notation.)
\<close>

definition digit_char :: "nat \<Rightarrow> char" where
  "digit_char d = ''0123456789'' ! d"

function show_nat :: "nat \<Rightarrow> string" where
  "show_nat n = (if n < 10 then [digit_char n] else show_nat (n div 10) @ [digit_char (n mod 10)])"
  by pat_completeness auto
termination
  by (relation "measure id") auto

declare show_nat.simps [simp del]

definition show_int :: "int \<Rightarrow> string" where
  "show_int i = (if i < 0 then CHR ''-'' # show_nat (nat (- i)) else show_nat (nat i))"

text \<open>\<open>Math.ceil(a / 1000)\<close> on an integral \<open>a\<close>.\<close>

definition ceil_div_1000 :: "int \<Rightarrow> int" where
  "ceil_div_1000 a = - ((- a) div 1000)"

section \<open>RateLimiter (services/rate-limiter.ts)\<close>

datatype UserTier = free | pro

datatype operation = api_call | create_sandbox

record QuotaLimits =
  sandboxesPerHour :: int
  apiCallsPerMinute :: int
  executionTimePerDay :: int

fun QUOTA_TIERS :: "UserTier \<Rightarrow> QuotaLimits" where
  "QUOTA_TIERS free =
     \<lparr>sandboxesPerHour = 5, apiCallsPerMinute = 10, executionTimePerDay = 3600000\<rparr>"
| "QUOTA_TIERS pro =
     \<lparr>sandboxesPerHour = 100, apiCallsPerMinute = 100, executionTimePerDay = 86400000\<rparr>"

text \<open>
  \<open>interface RateLimitEntry\<close>: the four optional fields are \<open>None\<close> when the property is
  absent (\<open>undefined\<close>).
\<close>

record RateLimitEntry =
  count :: int
  resetAt :: int
  hourlyCount :: "int option"
  hourlyResetAt :: "int option"
  dailyExecutionMs :: "int option"
  dailyResetAt :: "int option"

type_synonym limits = "string \<rightharpoonup> RateLimitEntry"

text \<open>\<open>x || 0\<close> on an optional number: \<open>undefined\<close> and \<open>0\<close> are both falsy.\<close>

definition or0 :: "int option \<Rightarrow> int" where
  "or0 x = (case x of None \<Rightarrow> 0 | Some v \<Rightarrow> v)"

text \<open>\<open>x && now > x\<close> on an optional number: false when \<open>x\<close> is \<open>undefined\<close> or \<open>0\<close>.\<close>

definition truthy_expired :: "int \<Rightarrow> int option \<Rightarrow> bool" where
  "truthy_expired now x = (case x of None \<Rightarrow> False | Some v \<Rightarrow> v \<noteq> 0 \<and> now > v)"

fun operation_name :: "operation \<Rightarrow> string" where
  "operation_name api_call = ''api_call''"
| "operation_name create_sandbox = ''create_sandbox''"

definition limit_key :: "string \<Rightarrow> string \<Rightarrow> string" where
  "limit_key userId opname = userId @ '':'' @ opname"

text \<open>The entry literal of \<open>checkLimit\<close> (lines 58-65).\<close>

definition check_entry :: "int \<Rightarrow> RateLimitEntry" where
  "check_entry now =
     \<lparr>count = 0, resetAt = now + 60000,
      hourlyCount = Some 0, hourlyResetAt = Some (now + 3600000),
      dailyExecutionMs = Some 0, dailyResetAt = Some (now + 86400000)\<rparr>"

text \<open>Lines 54-79: fetch the entry, initialise or reset it, then the two lazy resets.\<close>

definition check_refresh :: "limits \<Rightarrow> int \<Rightarrow> string \<Rightarrow> RateLimitEntry" where
  "check_refresh m now key =
     (let e0 = (case m key of
                  None \<Rightarrow> check_entry now
                | Some e \<Rightarrow> if now > resetAt e then check_entry now else e);
          e1 = (if truthy_expired now (hourlyResetAt e0)
                then e0\<lparr>hourlyCount := Some 0, hourlyResetAt := Some (now + 3600000)\<rparr>
                else e0);
          e2 = (if truthy_expired now (dailyResetAt e1)
                then e1\<lparr>dailyExecutionMs := Some 0, dailyResetAt := Some (now + 86400000)\<rparr>
                else e1)
      in e2)"

text \<open>
  The retry hint \<open>Math.ceil((resetAt - now) / 1000)\<close> rendered into the message; an
  absent \<open>hourlyResetAt\<close> makes the difference \<open>NaN\<close>.
\<close>

definition retry_text :: "int option \<Rightarrow> int \<Rightarrow> string" where
  "retry_text r now = (case r of None \<Rightarrow> ''NaN'' | Some v \<Rightarrow> show_int (ceil_div_1000 (v - now)))"

definition rate_limit_error :: "string \<Rightarrow> MCPError" where
  "rate_limit_error hint =
     \<lparr>code = RATE_LIMIT_EXCEEDED,
      message = ''Rate limit exceeded. Try again in '' @ hint @ '' seconds.'',
      statusCode = 429, retryable = True\<rparr>"

definition sandbox_quota_error :: "string \<Rightarrow> MCPError" where
  "sandbox_quota_error hint =
     \<lparr>code = QUOTA_EXCEEDED,
      message = ''Sandbox quota exceeded. Try again in '' @ hint @ '' seconds.'',
      statusCode = 429, retryable = True\<rparr>"

text \<open>
  \<open>checkLimit(userId, tier, operation)\<close> at clock reading \<open>now\<close>. The map is returned in
  both outcomes: the entry stored or mutated before a throw stays stored.
\<close>

definition checkLimit ::
  "limits \<Rightarrow> int \<Rightarrow> string \<Rightarrow> UserTier \<Rightarrow> operation \<Rightarrow> (MCPError + bool) \<times> limits" where
  "checkLimit m now userId tier operation =
     (let key = limit_key userId (operation_name operation);
          lim = QUOTA_TIERS tier;
          entry = check_refresh m now key
      in case operation of
           api_call \<Rightarrow>
             if count entry \<ge> apiCallsPerMinute lim
             then (Inl (rate_limit_error (retry_text (Some (resetAt entry)) now)),
                   m(key \<mapsto> entry))
             else (Inr True, m(key \<mapsto> entry\<lparr>count := count entry + 1\<rparr>))
         | create_sandbox \<Rightarrow>
             if or0 (hourlyCount entry) \<ge> sandboxesPerHour lim
             then (Inl (sandbox_quota_error (retry_text (hourlyResetAt entry) now)),
                   m(key \<mapsto> entry))
             else (Inr True,
                   m(key \<mapsto> entry\<lparr>count := count entry + 1,
                                   hourlyCount := Some (or0 (hourlyCount entry) + 1)\<rparr>)))"

text \<open>The entry literal of \<open>recordExecutionTime\<close> (lines 141-146).\<close>

definition record_entry :: "int \<Rightarrow> RateLimitEntry" where
  "record_entry now =
     \<lparr>count = 0, resetAt = now + 60000,
      hourlyCount = None, hourlyResetAt = None,
      dailyExecutionMs = Some 0, dailyResetAt = Some (now + 86400000)\<rparr>"

definition record_refresh :: "limits \<Rightarrow> int \<Rightarrow> string \<Rightarrow> RateLimitEntry" where
  "record_refresh m now key =
     (case m key of
        None \<Rightarrow> record_entry now
      | Some e \<Rightarrow> if now > or0 (dailyResetAt e) then record_entry now else e)"

definition daily_quota_error :: MCPError where
  "daily_quota_error =
     \<lparr>code = QUOTA_EXCEEDED, message = ''Daily execution time quota exceeded'',
      statusCode = 429, retryable = True\<rparr>"

definition recordExecutionTime ::
  "limits \<Rightarrow> int \<Rightarrow> string \<Rightarrow> UserTier \<Rightarrow> int \<Rightarrow> (MCPError + unit) \<times> limits" where
  "recordExecutionTime m now userId tier executionTimeMs =
     (let key = limit_key userId ''execution_time'';
          lim = QUOTA_TIERS tier;
          entry = record_refresh m now key;
          total = or0 (dailyExecutionMs entry) + executionTimeMs;
          entry' = entry\<lparr>dailyExecutionMs := Some total\<rparr>
      in if total > executionTimePerDay lim
         then (Inl daily_quota_error, m(key \<mapsto> entry'))
         else (Inr (), m(key \<mapsto> entry')))"

text \<open>A run of \<open>checkLimit\<close> calls by one caller, at the given clock readings, in order.\<close>

fun checkLimit_run ::
  "limits \<Rightarrow> string \<Rightarrow> UserTier \<Rightarrow> operation \<Rightarrow> int list \<Rightarrow> (MCPError + bool) list \<times> limits" where
  "checkLimit_run m userId tier operation [] = ([], m)"
| "checkLimit_run m userId tier operation (now # nows) =
     (let (r, m') = checkLimit m now userId tier operation;
          (rs, m'') = checkLimit_run m' userId tier operation nows
      in (r # rs, m''))"

text \<open>A run of \<open>recordExecutionTime\<close> calls by one caller: clock reading and duration.\<close>

fun record_run ::
  "limits \<Rightarrow> string \<Rightarrow> UserTier \<Rightarrow> (int \<times> int) list \<Rightarrow> (MCPError + unit) list \<times> limits" where
  "record_run m userId tier [] = ([], m)"
| "record_run m userId tier ((now, d) # calls) =
     (let (r, m') = recordExecutionTime m now userId tier d;
          (rs, m'') = record_run m' userId tier calls
      in (r # rs, m''))"

text \<open>Counters of an entry are non-negative; an absent counter reads as 0.\<close>

definition entry_nonneg :: "RateLimitEntry \<Rightarrow> bool" where
  "entry_nonneg e \<longleftrightarrow> 0 \<le> count e \<and> 0 \<le> or0 (hourlyCount e) \<and> 0 \<le> or0 (dailyExecutionMs e)"

definition limits_nonneg :: "limits \<Rightarrow> bool" where
  "limits_nonneg m \<longleftrightarrow> (\<forall>k e. m k = Some e \<longrightarrow> entry_nonneg e)"

section \<open>RequestValidator (services/path-validator.ts)\<close>

text \<open>\<open>String.prototype.includes\<close> and \<open>startsWith\<close>.\<close>

fun str_includes :: "string \<Rightarrow> string \<Rightarrow> bool" where
  "str_includes [] pat = (pat = [])"
| "str_includes (c # cs) pat = (prefix pat (c # cs) \<or> str_includes cs pat)"

definition startsWith :: "string \<Rightarrow> string \<Rightarrow> bool" where
  "startsWith s pat = prefix pat s"

text \<open>
  \<open>FORBIDDEN_PATHS\<close>: every pattern is \<open>/^literal/\<close>, a test that the path starts with
  the literal; the list holds the literals in the source's order.
\<close>

definition FORBIDDEN_PATHS :: "string list" where
  "FORBIDDEN_PATHS =
     [''.env'', ''.git'', ''node_modules'', ''.codesandbox'',
      ''/etc'', ''/root'', ''/proc'', ''/sys'', ''/var'', ''/usr'', ''/bin'', ''/sbin'', ''/boot'',
      ''.ssh'', ''.aws'', ''.config'']"

definition ascii_letter :: "char \<Rightarrow> bool" where
  "ascii_letter c \<longleftrightarrow> c \<in> set ''abcdefghijklmnopqrstuvwxyzABCDEFGHIJKLMNOPQRSTUVWXYZ''"

text \<open>\<open>/^[a-zA-Z]:/.test(filePath)\<close>.\<close>

fun drive_letter_prefix :: "string \<Rightarrow> bool" where
  "drive_letter_prefix (c # d # _) = (ascii_letter c \<and> d = CHR '':'')"
| "drive_letter_prefix _ = False"

text \<open>The loop over \<open>FORBIDDEN_PATHS\<close>: false at the first pattern that matches.\<close>

fun forbidden_loop :: "string list \<Rightarrow> string \<Rightarrow> bool" where
  "forbidden_loop [] filePath = True"
| "forbidden_loop (pat # pats) filePath =
     (if prefix pat filePath then False else forbidden_loop pats filePath)"

definition validateFilePath :: "string \<Rightarrow> bool" where
  "validateFilePath filePath =
     (if str_includes filePath ''..'' then False
      else if startsWith filePath ''/'' then False
      else if drive_letter_prefix filePath then False
      else forbidden_loop FORBIDDEN_PATHS filePath)"

definition assertValidFilePath :: "string \<Rightarrow> MCPError + unit" where
  "assertValidFilePath filePath =
     (if \<not> validateFilePath filePath
      then Inl \<lparr>code = PATH_TRAVERSAL,
                message = ''Invalid or forbidden file path: '' @ filePath,
                statusCode = 403, retryable = False\<rparr>
      else Inr ())"

text \<open>
  The segments of a path: the pieces between separators \<open>/\<close> (used to state the claim
  about \<open>..\<close> segments; the code itself looks for the substring).
\<close>

fun path_segments :: "string \<Rightarrow> string list" where
  "path_segments [] = [[]]"
| "path_segments (c # cs) =
     (if c = CHR ''/'' then [] # path_segments cs
      else (case path_segments cs of seg # segs \<Rightarrow> (c # seg) # segs | [] \<Rightarrow> [[c]]))"

text \<open>
  \<open>repoId in allowedRepos\<close>. The allowlist is a plain object (\<open>{}\<close> filled in by the
  configuration loader), so the \<open>in\<close> operator finds its own properties, modelled as a
  map from identifier to token, and the properties it inherits from \<open>Object.prototype\<close>.
\<close>

definition Object_prototype_properties :: "string list" where
  "Object_prototype_properties =
     [''constructor'', ''__defineGetter__'', ''__defineSetter__'', ''hasOwnProperty'',
      ''__lookupGetter__'', ''__lookupSetter__'', ''isPrototypeOf'', ''propertyIsEnumerable'',
      ''toString'', ''valueOf'', ''__proto__'', ''toLocaleString'']"

definition js_in :: "string \<Rightarrow> (string \<rightharpoonup> string) \<Rightarrow> bool" where
  "js_in key obj \<longleftrightarrow> obj key \<noteq> None \<or> key \<in> set Object_prototype_properties"

definition validateRepoId :: "string \<Rightarrow> (string \<rightharpoonup> string) \<Rightarrow> bool" where
  "validateRepoId repoId allowedRepos = js_in repoId allowedRepos"

definition assertValidRepoId :: "string \<Rightarrow> (string \<rightharpoonup> string) \<Rightarrow> MCPError + unit" where
  "assertValidRepoId repoId allowedRepos =
     (if \<not> validateRepoId repoId allowedRepos
      then Inl \<lparr>code = INVALID_REPO,
                message = ''Repository '' @ [CHR 0x27] @ repoId @ [CHR 0x27] @ '' is not in the allowed list'',
                statusCode = 403, retryable = False\<rparr>
      else Inr ())"

section \<open>JSON data\<close>

text \<open>
  The values that travel as tool parameters and come back from \<open>JSON.parse\<close>: null,
  booleans, numbers (integral ones; fractions and the non-finite values are outside the
  model), strings, arrays, and objects as the list of their own enumerable properties in
  enumeration order. A \<open>char\<close> stands for one code unit below 256.
\<close>

datatype jsvalue =
    JNull
  | JBool bool
  | JNum int
  | JStr string
  | JArr "jsvalue list"
  | JObj "(string \<times> jsvalue) list"

text \<open>\<open>typeof value === 'object' && value !== null\<close>.\<close>

fun is_object :: "jsvalue \<Rightarrow> bool" where
  "is_object (JArr _) = True"
| "is_object (JObj _) = True"
| "is_object _ = False"

text \<open>
  \<open>Object.entries\<close> of an object is its property list; of an array, its elements under
  the keys \<open>"0"\<close>, \<open>"1"\<close>, ...
\<close>

fun index_entries :: "nat \<Rightarrow> jsvalue list \<Rightarrow> (string \<times> jsvalue) list" where
  "index_entries i [] = []"
| "index_entries i (v # vs) = (show_nat i, v) # index_entries (Suc i) vs"

fun Object_entries :: "jsvalue \<Rightarrow> (string \<times> jsvalue) list" where
  "Object_entries (JObj kvs) = kvs"
| "Object_entries (JArr vs) = index_entries 0 vs"
| "Object_entries _ = []"

section \<open>ErrorSanitizer: parameters (middleware/error-handler.ts)\<close>

text \<open>
  \<open>String.prototype.toLowerCase\<close> on code units below 256: the letters A-Z and the
  upper-case letters of Latin-1 (192-222, the multiplication sign 215 apart) move up by
  32, everything else is kept.
\<close>

definition lower_char :: "char \<Rightarrow> char" where
  "lower_char c =
     (let n = of_char c :: nat
      in if (65 \<le> n \<and> n \<le> 90) \<or> (192 \<le> n \<and> n \<le> 222 \<and> n \<noteq> 215)
         then char_of (n + 32) else c)"

definition toLowerCase :: "string \<Rightarrow> string" where
  "toLowerCase s = map lower_char s"

definition sensitiveKeys :: "string list" where
  "sensitiveKeys = [''token'', ''secret'', ''api_key'', ''apiKey'', ''password'', ''auth'']"

definition isSensitive :: "string \<Rightarrow> bool" where
  "isSensitive key =
     list_ex (\<lambda>sensitiveKey. str_includes (toLowerCase key) (toLowerCase sensitiveKey)) sensitiveKeys"

definition REDACTED :: string where
  "REDACTED = ''[REDACTED]''"

fun entries_size :: "(string \<times> jsvalue) list \<Rightarrow> nat" where
  "entries_size [] = 0"
| "entries_size ((k, v) # kvs) = Suc (size v) + entries_size kvs"

lemma entries_size_index: "entries_size (index_entries i vs) = size_list size vs"
  by (induction vs arbitrary: i) simp_all

lemma entries_size_object: "is_object v \<Longrightarrow> entries_size (Object_entries v) < size v"
proof (cases v)
  case (JObj kvs)
  have "entries_size kvs \<le> size_list (size_prod (\<lambda>_. 0) size) kvs"
    by (induction kvs) auto
  then show ?thesis using JObj by simp
qed (simp_all add: entries_size_index)

text \<open>
  The assignment \<open>sanitized[key] = value\<close> on the plain object under construction: it
  stores an own property, except under the key \<open>__proto__\<close>, where it reaches the setter
  inherited from \<open>Object.prototype\<close> and stores none.
\<close>

definition set_property :: "string \<Rightarrow> jsvalue \<Rightarrow> (string \<times> jsvalue) list" where
  "set_property key v = (if key = ''__proto__'' then [] else [(key, v)])"

text \<open>
  \<open>sanitizeParameters\<close>: the loop over \<open>Object.entries(params)\<close> builds the result
  property by property, in order.
\<close>

function sanitizeParameters :: "(string \<times> jsvalue) list \<Rightarrow> (string \<times> jsvalue) list" where
  "sanitizeParameters [] = []"
| "sanitizeParameters ((key, val) # rest) =
     set_property key
       (if isSensitive key then JStr REDACTED
        else if is_object val then JObj (sanitizeParameters (Object_entries val))
        else val)
     @ sanitizeParameters rest"
  by pat_completeness auto
termination
proof (relation "measure entries_size")
  show "wf (measure entries_size)" by simp
next
  fix key val rest
  assume "\<not> isSensitive key" and "is_object val"
  then show "(Object_entries val, (key, val) # rest) \<in> measure entries_size"
    using entries_size_object [of val] by simp
next
  fix key :: string and val :: jsvalue and rest
  show "(rest, (key, val) # rest) \<in> measure entries_size" by simp
qed

section \<open>JSON.stringify\<close>

text \<open>
  \<open>JSON.stringify\<close> without indentation. A string is quoted; the quote and the backslash
  are escaped with a backslash, the control characters below 32 as \<open>\b \t \n \f \r\<close> or
  \<open>\u00XX\<close>; an array and an object list their elements and members separated by commas.
\<close>

definition hex_digit :: "nat \<Rightarrow> char" where
  "hex_digit d = ''0123456789abcdef'' ! d"

definition escape_char :: "char \<Rightarrow> string" where
  "escape_char c =
     (if c = CHR 0x22 then [CHR 0x5C, CHR 0x22]
      else if c = CHR 0x5C then [CHR 0x5C, CHR 0x5C]
      else if c = CHR 0x08 then [CHR 0x5C, CHR ''b'']
      else if c = CHR 0x09 then [CHR 0x5C, CHR ''t'']
      else if c = CHR 0x0A then [CHR 0x5C, CHR ''n'']
      else if c = CHR 0x0C then [CHR 0x5C, CHR ''f'']
      else if c = CHR 0x0D then [CHR 0x5C, CHR ''r'']
      else if (of_char c :: nat) < 32
      then [CHR 0x5C, CHR ''u'', CHR ''0'', CHR ''0'',
            hex_digit (of_char c div 16), hex_digit (of_char c mod 16)]
      else [c])"

fun quote_body :: "string \<Rightarrow> string" where
  "quote_body [] = [CHR 0x22]"
| "quote_body (c # cs) = escape_char c @ quote_body cs"

definition quote :: "string \<Rightarrow> string" where
  "quote s = CHR 0x22 # quote_body s"

fun stringify :: "jsvalue \<Rightarrow> string"
  and stringify_elements :: "jsvalue list \<Rightarrow> string"
  and stringify_members :: "(string \<times> jsvalue) list \<Rightarrow> string"
where
  "stringify JNull = ''null''"
| "stringify (JBool b) = (if b then ''true'' else ''false'')"
| "stringify (JNum n) = show_int n"
| "stringify (JStr s) = quote s"
| "stringify (JArr vs) = CHR ''['' # stringify_elements vs"
| "stringify (JObj kvs) = CHR ''{'' # stringify_members kvs"
| "stringify_elements [] = '']''"
| "stringify_elements [v] = stringify v @ '']''"
| "stringify_elements (v # w # vs) = stringify v @ '','' @ stringify_elements (w # vs)"
| "stringify_members [] = ''}''"
| "stringify_members [(k, v)] = quote k @ '':'' @ stringify v @ ''}''"
| "stringify_members ((k, v) # m # ms) =
     quote k @ '':'' @ stringify v @ '','' @ stringify_members (m # ms)"

section \<open>AuditLogger (services/audit-logger.ts)\<close>

datatype audit_result = success | failure | rate_limited

fun result_name :: "audit_result \<Rightarrow> string" where
  "result_name success = ''success''"
| "result_name failure = ''failure''"
| "result_name rate_limited = ''rate_limited''"

text \<open>
  \<open>interface AuditLog\<close>; \<open>Omit<AuditLog, 'hash'>\<close> is the record without its last field.
  The optional fields are \<open>None\<close> when \<open>undefined\<close>.
\<close>

record EntryWithoutHash =
  timestamp :: string
  user_id :: string
  tool_name :: string
  parameters :: "(string \<times> jsvalue) list"
  result :: audit_result
  error :: "string option"
  sandbox_id :: "string option"
  execution_time_ms :: int

record AuditLog = EntryWithoutHash +
  hash :: string

text \<open>A property whose value is \<open>undefined\<close> is left out by \<open>JSON.stringify\<close>.\<close>

fun optional_member :: "string \<Rightarrow> string option \<Rightarrow> (string \<times> jsvalue) list" where
  "optional_member key None = []"
| "optional_member key (Some s) = [(key, JStr s)]"

text \<open>The object literal of \<open>generateHash\<close>, as \<open>JSON.stringify\<close> sees it.\<close>

definition hash_object :: "'a EntryWithoutHash_scheme \<Rightarrow> jsvalue" where
  "hash_object entry =
     JObj ([(''timestamp'', JStr (timestamp entry)),
            (''user_id'', JStr (user_id entry)),
            (''tool_name'', JStr (tool_name entry)),
            (''parameters'', JObj (parameters entry)),
            (''result'', JStr (result_name (result entry)))]
           @ optional_member ''error'' (error entry)
           @ optional_member ''sandbox_id'' (sandbox_id entry)
           @ [(''execution_time_ms'', JNum (execution_time_ms entry))])"

text \<open>
  \<open>generateHash\<close>. The digest \<open>createHash('sha256').update(data).digest('hex')\<close> is
  Node's; it is a parameter \<open>sha256\<close> of the model.
\<close>

definition generateHash :: "(string \<Rightarrow> string) \<Rightarrow> 'a EntryWithoutHash_scheme \<Rightarrow> string" where
  "generateHash sha256 entry = sha256 (stringify (hash_object entry))"

text \<open>\<open>verifyIntegrity\<close>: false at the first entry whose recomputed hash differs.\<close>

fun verifyIntegrity :: "(string \<Rightarrow> string) \<Rightarrow> AuditLog list \<Rightarrow> bool" where
  "verifyIntegrity sha256 [] = True"
| "verifyIntegrity sha256 (entry # entries) =
     (let entryWithoutHash =
            \<lparr>timestamp = timestamp entry, user_id = user_id entry, tool_name = tool_name entry,
             parameters = parameters entry, result = result entry, error = error entry,
             sandbox_id = sandbox_id entry, execution_time_ms = execution_time_ms entry\<rparr>;
          expectedHash = generateHash sha256 entryWithoutHash
      in if expectedHash \<noteq> hash entry then False else verifyIntegrity sha256 entries)"

text \<open>
  A row of table \<open>audit_logs\<close> as \<open>stmt.run\<close> receives it: the parameters serialised,
  \<open>error || null\<close> and \<open>sandbox_id || null\<close> (NULL for \<open>undefined\<close> and for the empty
  string).
\<close>

record audit_row =
  row_timestamp :: string
  row_user_id :: string
  row_tool_name :: string
  row_parameters :: string
  row_result :: string
  row_error :: "string option"
  row_sandbox_id :: "string option"
  row_execution_time_ms :: int
  row_hash :: string

definition or_null :: "string option \<Rightarrow> string option" where
  "or_null x = (case x of None \<Rightarrow> None | Some s \<Rightarrow> if s = [] then None else Some s)"

text \<open>
  What \<open>log\<close> acts on: the ledger (the database, of any type \<open>'db\<close>), the lines written
  through the pino logger, and the lines written to \<open>console.error\<close>.
\<close>

datatype log_line = Info string | Error string

record 'db audit_env =
  ledger :: 'db
  logger_lines :: "log_line list"
  console_error :: "string list"

text \<open>
  The \<open>try\<close> block of \<open>log\<close>: it builds the entry, its hash and the row
  (\<open>make_row\<close>), inserts the row and writes an info line. The persistence step \<open>db.prepare(...).run(...)\<close> belongs
  to better-sqlite3; it is the parameter \<open>persist\<close>, which returns the new ledger or
  throws (\<open>Inl\<close> with the error's text). \<open>now_iso\<close> is \<open>new Date().toISOString()\<close>.
\<close>

definition make_row ::
  "(string \<Rightarrow> string) \<Rightarrow> string \<Rightarrow> string \<Rightarrow> string \<Rightarrow> (string \<times> jsvalue) list \<Rightarrow>
   audit_result \<Rightarrow> int \<Rightarrow> string option \<Rightarrow> string option \<Rightarrow> audit_row" where
  "make_row sha256 now_iso userId toolName params res executionTimeMs err sandboxId =
     (let sanitizedParams = sanitizeParameters params;
          entryWithoutHash =
            \<lparr>timestamp = now_iso, user_id = userId, tool_name = toolName,
             parameters = sanitizedParams, result = res, error = err,
             sandbox_id = sandboxId, execution_time_ms = executionTimeMs\<rparr>;
          h = generateHash sha256 entryWithoutHash
      in \<lparr>row_timestamp = now_iso, row_user_id = userId, row_tool_name = toolName,
          row_parameters = stringify (JObj sanitizedParams),
          row_result = result_name res, row_error = or_null err,
          row_sandbox_id = or_null sandboxId,
          row_execution_time_ms = executionTimeMs, row_hash = h\<rparr>)"

definition log_try ::
  "(string \<Rightarrow> string) \<Rightarrow> (audit_row \<Rightarrow> 'db \<Rightarrow> string + 'db) \<Rightarrow> string \<Rightarrow> 'db audit_env \<Rightarrow>
   string \<Rightarrow> string \<Rightarrow> (string \<times> jsvalue) list \<Rightarrow> audit_result \<Rightarrow> int \<Rightarrow>
   string option \<Rightarrow> string option \<Rightarrow> string + 'db audit_env" where
  "log_try sha256 persist now_iso env userId toolName params res executionTimeMs err sandboxId =
     (case persist (make_row sha256 now_iso userId toolName params res executionTimeMs err sandboxId)
             (ledger env) of
        Inl thrown \<Rightarrow> Inl thrown
      | Inr db' \<Rightarrow>
          Inr (env\<lparr>ledger := db',
                    logger_lines := logger_lines env @ [Info ''audit logged'']\<rparr>))"

text \<open>
  \<open>log\<close>: the \<open>catch\<close> clause takes whatever the block throws, writes an error line to
  the logger and one to \<open>console.error\<close>, and returns. The result type keeps a place
  for an error that would leave \<open>log\<close>.
\<close>

definition log ::
  "(string \<Rightarrow> string) \<Rightarrow> (audit_row \<Rightarrow> 'db \<Rightarrow> string + 'db) \<Rightarrow> string \<Rightarrow> 'db audit_env \<Rightarrow>
   string \<Rightarrow> string \<Rightarrow> (string \<times> jsvalue) list \<Rightarrow> audit_result \<Rightarrow> int \<Rightarrow>
   string option \<Rightarrow> string option \<Rightarrow> string + 'db audit_env" where
  "log sha256 persist now_iso env userId toolName params res executionTimeMs err sandboxId =
     (case log_try sha256 persist now_iso env userId toolName params res executionTimeMs err sandboxId of
        Inr env' \<Rightarrow> Inr env'
      | Inl thrown \<Rightarrow>
          Inr (env\<lparr>logger_lines := logger_lines env @ [Error ''CRITICAL: Audit logging failed''],
                    console_error := console_error env
                       @ [''CRITICAL: Audit logging failed: '' @ thrown]\<rparr>))"

text \<open>
  The eight stored fields a hash covers, and what it means for the digest not to collide
  on two inputs.
\<close>

definition stored_fields ::
  "'a EntryWithoutHash_scheme \<Rightarrow>
   string \<times> string \<times> string \<times> (string \<times> jsvalue) list \<times> audit_result \<times> string option \<times> string option \<times> int" where
  "stored_fields entry =
     (timestamp entry, user_id entry, tool_name entry, parameters entry, result entry,
      error entry, sandbox_id entry, execution_time_ms entry)"

definition no_collision :: "(string \<Rightarrow> string) \<Rightarrow> string \<Rightarrow> string \<Rightarrow> bool" where
  "no_collision sha256 a b \<longleftrightarrow> (sha256 a = sha256 b \<longrightarrow> a = b)"

section \<open>Reading a serialisation back\<close>

text \<open>
  Auxiliary notions for the proof that \<open>JSON.stringify\<close> loses nothing: decimal and
  hexadecimal digits and their values, the number a digit string denotes, the character a
  short escape stands for, and the first character by which each kind of value starts.
\<close>

definition is_digit :: "char \<Rightarrow> bool" where
  "is_digit c \<longleftrightarrow> c \<in> set ''0123456789''"

definition digit_val :: "char \<Rightarrow> nat" where
  "digit_val c = of_char c - 48"

fun nondigit_start :: "string \<Rightarrow> bool" where
  "nondigit_start [] = True"
| "nondigit_start (c # _) = (\<not> is_digit c)"

definition nat_of_digits :: "string \<Rightarrow> nat" where
  "nat_of_digits s = foldl (\<lambda>a c. 10 * a + digit_val c) 0 s"

definition hex_val :: "char \<Rightarrow> nat" where
  "hex_val c = (if is_digit c then of_char c - 48 else of_char c - 87)"

definition short_unescape :: "char \<Rightarrow> char" where
  "short_unescape b =
     (if b = CHR ''b'' then CHR 0x08
      else if b = CHR ''t'' then CHR 0x09
      else if b = CHR ''n'' then CHR 0x0A
      else if b = CHR ''f'' then CHR 0x0C
      else if b = CHR ''r'' then CHR 0x0D
      else b)"

fun tag :: "jsvalue \<Rightarrow> nat" where
  "tag JNull = 0"
| "tag (JBool _) = 1"
| "tag (JNum _) = 2"
| "tag (JStr _) = 3"
| "tag (JArr _) = 4"
| "tag (JObj _) = 5"

fun first_ok :: "jsvalue \<Rightarrow> char \<Rightarrow> bool" where
  "first_ok JNull c = (c = CHR ''n'')"
| "first_ok (JBool _) c = (c = CHR ''t'' \<or> c = CHR ''f'')"
| "first_ok (JNum _) c = (is_digit c \<or> c = CHR ''-'')"
| "first_ok (JStr _) c = (c = CHR 0x22)"
| "first_ok (JArr _) c = (c = CHR ''['')"
| "first_ok (JObj _) c = (c = CHR ''{'')"

section \<open>ErrorSanitizer: messages (middleware/error-handler.ts)\<close>

text \<open>
  The character classes of the regular expressions: \<open>\s\<close> (on code units below 256:
  tab, line feed, vertical tab, form feed, carriage return, space, no-break space),
  \<open>\w\<close>, \<open>[\s:=]\<close> and \<open>[a-zA-Z0-9_-]\<close>.
\<close>

definition is_space :: "char \<Rightarrow> bool" where
  "is_space c \<longleftrightarrow> c \<in> set [CHR 0x09, CHR 0x0A, CHR 0x0B, CHR 0x0C, CHR 0x0D, CHR 0x20, CHR 0xA0]"

definition is_word_char :: "char \<Rightarrow> bool" where
  "is_word_char c \<longleftrightarrow> ascii_letter c \<or> c \<in> set ''0123456789_''"

definition is_separator :: "char \<Rightarrow> bool" where
  "is_separator c \<longleftrightarrow> is_space c \<or> c = CHR '':'' \<or> c = CHR ''=''"

definition is_token_char :: "char \<Rightarrow> bool" where
  "is_token_char c \<longleftrightarrow> ascii_letter c \<or> c \<in> set ''0123456789_-''"

text \<open>The character at an index, if any, and \<open>\b\<close> between two neighbours.\<close>

definition char_at :: "nat \<Rightarrow> string \<Rightarrow> char option" where
  "char_at n s = (if n < length s then Some (s ! n) else None)"

definition word_boundary :: "char option \<Rightarrow> char option \<Rightarrow> bool" where
  "word_boundary a b \<longleftrightarrow>
     (case a of None \<Rightarrow> False | Some c \<Rightarrow> is_word_char c)
       \<noteq> (case b of None \<Rightarrow> False | Some c \<Rightarrow> is_word_char c)"

text \<open>A literal of the pattern matched at the front under flag \<open>i\<close> (the literal is lower case).\<close>

definition ci_prefix :: "string \<Rightarrow> string \<Rightarrow> bool" where
  "ci_prefix lit s \<longleftrightarrow> toLowerCase (take (length lit) s) = lit"

text \<open>
  \<open>(token|secret|api[_-]?key|password)\<close> at the front of \<open>s\<close>: the lengths of the
  texts the group can match, in the order the matcher tries them.
\<close>

definition sensitive_word_lengths :: "string \<Rightarrow> nat list" where
  "sensitive_word_lengths s =
     (if ci_prefix ''token'' s then [5] else [])
     @ (if ci_prefix ''secret'' s then [6] else [])
     @ (if ci_prefix ''api'' s
        then (case drop 3 s of
                c # r \<Rightarrow> if (c = CHR ''_'' \<or> c = CHR ''-'') \<and> ci_prefix ''key'' r then [7] else []
              | [] \<Rightarrow> [])
             @ (if ci_prefix ''key'' (drop 3 s) then [6] else [])
        else [])
     @ (if ci_prefix ''password'' s then [8] else [])"

text \<open>
  \<open>[\s:=]+[\S]+\<close> at the front of \<open>t\<close>: the first quantifier takes the longest run of
  separators and gives characters back one at a time (never fewer than one kept) until a
  non-space character follows; the second takes every non-space character that follows.
  The result is the length matched.
\<close>

fun separator_value_from :: "nat \<Rightarrow> string \<Rightarrow> nat option" where
  "separator_value_from 0 t = None"
| "separator_value_from (Suc k) t =
     (let v = takeWhile (\<lambda>c. \<not> is_space c) (drop (Suc k) t)
      in if v \<noteq> [] then Some (Suc k + length v) else separator_value_from k t)"

definition separator_value :: "string \<Rightarrow> nat option" where
  "separator_value t = separator_value_from (length (takeWhile is_separator t)) t"

text \<open>The first alternative of the group for which the rest of the pattern matches.\<close>

fun first_match :: "(nat \<Rightarrow> nat option) \<Rightarrow> nat list \<Rightarrow> (nat \<times> nat) option" where
  "first_match rest [] = None"
| "first_match rest (w # ws) =
     (case rest w of Some n \<Rightarrow> Some (w, w + n) | None \<Rightarrow> first_match rest ws)"

text \<open>
  \<open>String.prototype.replace\<close> with a global pattern that cannot match the empty string:
  the matcher is tried at each position from the left; it sees the character before the
  position and the rest of the string, and returns the length matched and the text to
  put in its place. After a match the search goes on behind the matched text (\<open>skip\<close>
  counts the characters of it still to pass).
\<close>

fun gsub :: "(char option \<Rightarrow> string \<Rightarrow> (nat \<times> string) option) \<Rightarrow> char option \<Rightarrow> nat \<Rightarrow> string \<Rightarrow> string" where
  "gsub matcher prev skip [] = []"
| "gsub matcher prev (Suc skip) (c # cs) = gsub matcher (Some c) skip cs"
| "gsub matcher prev 0 (c # cs) =
     (case matcher prev (c # cs) of
        Some (n, replacement) \<Rightarrow> replacement @ gsub matcher (Some c) (n - 1) cs
      | None \<Rightarrow> c # gsub matcher (Some c) 0 cs)"

text \<open>\<open>/(token|secret|api[_-]?key|password)[\s:=]+[\S]+/gi\<close>, replaced by \<open>'$1 [REDACTED]'\<close>.\<close>

definition word_value_matcher :: "char option \<Rightarrow> string \<Rightarrow> (nat \<times> string) option" where
  "word_value_matcher prev s =
     (case first_match (\<lambda>w. separator_value (drop w s)) (sensitive_word_lengths s) of
        Some (w, n) \<Rightarrow> Some (n, take w s @ '' [REDACTED]'')
      | None \<Rightarrow> None)"

text \<open>\<open>/\b(token|secret|api[_-]?key|password)\b/gi\<close>, replaced by \<open>'[REDACTED]'\<close>.\<close>

definition bare_word_matcher :: "char option \<Rightarrow> string \<Rightarrow> (nat \<times> string) option" where
  "bare_word_matcher prev s =
     (if word_boundary prev (char_at 0 s)
      then (case first_match
                   (\<lambda>w. if word_boundary (char_at (w - 1) s) (char_at w s) then Some 0 else None)
                   (sensitive_word_lengths s) of
              Some (w, n) \<Rightarrow> Some (n, ''[REDACTED]'')
            | None \<Rightarrow> None)
      else None)"

text \<open>
  \<open>/\/home\/\S+/g\<close>, \<open>/\/Users\/\S+/g\<close> and \<open>/C:\\Users\\\S+/g\<close>: a literal followed by
  at least one non-space character, as many as there are.
\<close>

definition path_matcher :: "string \<Rightarrow> string \<Rightarrow> char option \<Rightarrow> string \<Rightarrow> (nat \<times> string) option" where
  "path_matcher lit replacement prev s =
     (if prefix lit s
      then (let v = takeWhile (\<lambda>c. \<not> is_space c) (drop (length lit) s)
            in if v \<noteq> [] then Some (length lit + length v, replacement) else None)
      else None)"

text \<open>
  \<open>/\b[a-zA-Z0-9_-]{40,}\b/g\<close>: the run is taken as long as it goes and shortened, down
  to 40, until it ends at a word boundary.
\<close>

fun token_run_end :: "nat \<Rightarrow> string \<Rightarrow> nat option" where
  "token_run_end 0 s = None"
| "token_run_end (Suc n) s =
     (if 40 \<le> Suc n \<and> word_boundary (char_at n s) (char_at (Suc n) s) then Some (Suc n)
      else token_run_end n s)"

definition long_token_matcher :: "char option \<Rightarrow> string \<Rightarrow> (nat \<times> string) option" where
  "long_token_matcher prev s =
     (if word_boundary prev (char_at 0 s)
      then (case token_run_end (length (takeWhile is_token_char s)) s of
              Some n \<Rightarrow> Some (n, ''[REDACTED]'')
            | None \<Rightarrow> None)
      else None)"

text \<open>The first step of \<open>sanitizeErrorMessage\<close>: the cut to 200 characters.\<close>

definition truncate_message :: "string \<Rightarrow> string" where
  "truncate_message s = (if length s > 200 then take 197 s @ ''...'' else s)"

definition sanitizeErrorMessage :: "string \<Rightarrow> string" where
  "sanitizeErrorMessage msg =
     (if msg = [] then ''An error occurred''
      else
        let sanitized = truncate_message msg;
            sanitized = gsub word_value_matcher None 0 sanitized;
            sanitized = gsub bare_word_matcher None 0 sanitized;
            sanitized = gsub (path_matcher ''/home/'' ''/[USER]/'') None 0 sanitized;
            sanitized = gsub (path_matcher ''/Users/'' ''/[USER]/'') None 0 sanitized;
            sanitized = gsub (path_matcher (''C:'' @ [CHR 0x5C] @ ''Users'' @ [CHR 0x5C])
                                           (''C:'' @ [CHR 0x5C] @ ''[USER]'' @ [CHR 0x5C]))
                             None 0 sanitized;
            sanitized = gsub long_token_matcher None 0 sanitized
        in sanitized)"

section \<open>Properties of the RateLimiter\<close>

subsection \<open>The per-minute ceiling of api_call\<close>

text \<open>
  While the minute window of an entry is in force (\<open>now \<le> resetAt\<close>) the entry is kept, so
  its \<open>count\<close> grows by one per accepted call and the call that finds it at the ceiling is
  rejected with the number of seconds left in that window.
\<close>

lemma check_refresh_in_window:
  assumes "m key = Some e" and "now \<le> resetAt e"
  shows "count (check_refresh m now key) = count e"
    and "resetAt (check_refresh m now key) = resetAt e"
  using assms by (simp_all add: check_refresh_def Let_def)

lemma checkLimit_api_accept:
  assumes "m (limit_key u ''api_call'') = Some e" and "now \<le> resetAt e"
    and "count e < apiCallsPerMinute (QUOTA_TIERS tier)"
  shows "\<exists>e'. checkLimit m now u tier api_call = (Inr True, m(limit_key u ''api_call'' \<mapsto> e'))
           \<and> count e' = count e + 1 \<and> resetAt e' = resetAt e"
  using assms
  by (intro exI[of _ "(check_refresh m now (limit_key u ''api_call''))\<lparr>count := count e + 1\<rparr>"])
     (simp add: checkLimit_def Let_def check_refresh_in_window)

lemma checkLimit_api_reject:
  assumes "m (limit_key u ''api_call'') = Some e" and "now \<le> resetAt e"
    and "count e \<ge> apiCallsPerMinute (QUOTA_TIERS tier)"
  shows "fst (checkLimit m now u tier api_call) =
           Inl (rate_limit_error (show_int (ceil_div_1000 (resetAt e - now))))"
  using assms by (simp add: checkLimit_def Let_def check_refresh_in_window retry_text_def)

lemma checkLimit_run_api_accepts:
  assumes "m (limit_key u ''api_call'') = Some e"
    and "\<forall>t \<in> set ts. t \<le> resetAt e"
    and "count e + int (length ts) \<le> apiCallsPerMinute (QUOTA_TIERS tier)"
  shows "\<exists>m' e'. checkLimit_run m u tier api_call ts = (replicate (length ts) (Inr True), m')
           \<and> m' (limit_key u ''api_call'') = Some e'
           \<and> count e' = count e + int (length ts) \<and> resetAt e' = resetAt e"
  using assms
proof (induction ts arbitrary: m e)
  case Nil
  then show ?case by simp
next
  case (Cons t ts)
  let ?k = "limit_key u ''api_call''"
  from Cons.prems have "count e < apiCallsPerMinute (QUOTA_TIERS tier)" and "t \<le> resetAt e"
    by auto
  with Cons.prems(1) obtain e1 where
    step: "checkLimit m t u tier api_call = (Inr True, m(?k \<mapsto> e1))"
    and e1: "count e1 = count e + 1" "resetAt e1 = resetAt e"
    using checkLimit_api_accept by blast
  have "(m(?k \<mapsto> e1)) ?k = Some e1" by simp
  moreover have "\<forall>t \<in> set ts. t \<le> resetAt e1" using Cons.prems(2) e1 by simp
  moreover have "count e1 + int (length ts) \<le> apiCallsPerMinute (QUOTA_TIERS tier)"
    using Cons.prems(3) e1 by simp
  ultimately obtain m' e' where
    rest: "checkLimit_run (m(?k \<mapsto> e1)) u tier api_call ts = (replicate (length ts) (Inr True), m')"
    and e': "m' ?k = Some e'" "count e' = count e1 + int (length ts)" "resetAt e' = resetAt e1"
    using Cons.IH by blast
  show ?case using step rest e' e1 by simp
qed

lemma checkLimit_first_call:
  assumes "m (limit_key u (operation_name op)) = None
           \<or> (\<exists>e. m (limit_key u (operation_name op)) = Some e \<and> t0 > resetAt e)"
  shows "check_refresh m t0 (limit_key u (operation_name op)) = check_entry t0"
  using assms by (auto simp: check_refresh_def check_entry_def truthy_expired_def Let_def)


lemma apiCallsPerMinute_pos: "1 \<le> apiCallsPerMinute (QUOTA_TIERS tier)"
  by (cases tier) simp_all

lemma checkLimit_api_ceiling:
  assumes fresh: "m (limit_key u ''api_call'') = None
                  \<or> (\<exists>e. m (limit_key u ''api_call'') = Some e \<and> t0 > resetAt e)"
    and window: "\<forall>t \<in> set ts. t \<le> t0 + 60000" "t' \<le> t0 + 60000"
    and len: "int (length ts) + 1 = apiCallsPerMinute (QUOTA_TIERS tier)"
  shows "\<exists>m'. checkLimit_run m u tier api_call (t0 # ts) = (replicate (length ts + 1) (Inr True), m')
           \<and> fst (checkLimit m' t' u tier api_call) =
               Inl (rate_limit_error (show_int (ceil_div_1000 (t0 + 60000 - t'))))"
proof -
  let ?k = "limit_key u ''api_call''"
  let ?e1 = "(check_entry t0)\<lparr>count := 1\<rparr>"
  have "check_refresh m t0 ?k = check_entry t0"
    using fresh checkLimit_first_call [of m u api_call t0] by simp
  then have first: "checkLimit m t0 u tier api_call = (Inr True, m(?k \<mapsto> ?e1))"
    using apiCallsPerMinute_pos [of tier]
    by (simp add: checkLimit_def Let_def check_entry_def)
  have "(m(?k \<mapsto> ?e1)) ?k = Some ?e1" by simp
  moreover have "\<forall>t \<in> set ts. t \<le> resetAt ?e1" using window by (simp add: check_entry_def)
  moreover have "count ?e1 + int (length ts) \<le> apiCallsPerMinute (QUOTA_TIERS tier)"
    using len by simp
  ultimately obtain m' e' where
    rest: "checkLimit_run (m(?k \<mapsto> ?e1)) u tier api_call ts = (replicate (length ts) (Inr True), m')"
    and e': "m' ?k = Some e'" "count e' = count ?e1 + int (length ts)" "resetAt e' = resetAt ?e1"
    using checkLimit_run_api_accepts by blast
  have "fst (checkLimit m' t' u tier api_call) =
          Inl (rate_limit_error (show_int (ceil_div_1000 (resetAt e' - t'))))"
    using e' window len by (intro checkLimit_api_reject) (simp_all add: check_entry_def)
  then show ?thesis using first rest e' by (simp add: check_entry_def)
qed

subsection \<open>Counters stay non-negative, reset times move forward\<close>

lemma check_refresh_nonneg:
  "limits_nonneg m \<Longrightarrow> entry_nonneg (check_refresh m now key)"
  by (auto simp: limits_nonneg_def entry_nonneg_def check_refresh_def check_entry_def
        or0_def Let_def split: option.splits)

lemma checkLimit_nonneg:
  assumes "limits_nonneg m"
  shows "limits_nonneg (snd (checkLimit m now u tier op))"
proof -
  have "entry_nonneg (check_refresh m now (limit_key u (operation_name op)))"
    using assms by (rule check_refresh_nonneg)
  then show ?thesis using assms
    by (cases op) (auto simp: checkLimit_def Let_def limits_nonneg_def entry_nonneg_def or0_def)
qed

lemma record_refresh_nonneg:
  assumes "limits_nonneg m"
  shows "entry_nonneg (record_refresh m now key)"
proof (cases "m key")
  case None
  then show ?thesis by (simp add: record_refresh_def record_entry_def entry_nonneg_def or0_def)
next
  case (Some e)
  then have "entry_nonneg e" using assms by (simp add: limits_nonneg_def)
  then show ?thesis using Some
    by (simp add: record_refresh_def record_entry_def entry_nonneg_def or0_def)
qed

lemma recordExecutionTime_nonneg:
  assumes "limits_nonneg m" and "0 \<le> d"
  shows "limits_nonneg (snd (recordExecutionTime m now u tier d))"
proof -
  let ?entry = "record_refresh m now (limit_key u ''execution_time'')"
  have "entry_nonneg ?entry" using assms(1) by (rule record_refresh_nonneg)
  then have "entry_nonneg (?entry\<lparr>dailyExecutionMs := Some (or0 (dailyExecutionMs ?entry) + d)\<rparr>)"
    using assms(2) by (simp add: entry_nonneg_def or0_def)
  then show ?thesis using assms(1)
    by (simp add: recordExecutionTime_def Let_def limits_nonneg_def)
qed

lemma recordExecutionTime_negative_duration:
  "recordExecutionTime Map.empty 0 ''u'' free (- 5)
     = (Inr (),
        [limit_key ''u'' ''execution_time'' \<mapsto>
           \<lparr>count = 0, resetAt = 60000, hourlyCount = None, hourlyResetAt = None,
            dailyExecutionMs = Some (- 5), dailyResetAt = Some 86400000\<rparr>])"
  by (simp add: recordExecutionTime_def record_refresh_def record_entry_def or0_def Let_def)

lemma checkLimit_resetAt_forward:
  assumes "m k = Some e" and "snd (checkLimit m now u tier op) k = Some e'"
  shows "resetAt e \<le> resetAt e'"
  using assms
  by (cases op)
     (auto simp: checkLimit_def check_refresh_def check_entry_def Let_def split: if_splits)

lemma recordExecutionTime_dailyResetAt_forward:
  assumes "m k = Some e" and "snd (recordExecutionTime m now u tier d) k = Some e'"
  shows "or0 (dailyResetAt e) \<le> or0 (dailyResetAt e')"
  using assms
  by (auto simp: recordExecutionTime_def record_refresh_def record_entry_def Let_def or0_def
        split: if_splits option.splits)

subsection \<open>Rejections of checkLimit\<close>

text \<open>
  Both rejections of \<open>checkLimit\<close> are retryable and carry the seconds until \<open>resetAt\<close>
  (api_call) or \<open>hourlyResetAt\<close> (create_sandbox) of the stored entry.
\<close>

lemma checkLimit_rejection_shape:
  assumes "checkLimit m now u tier op = (Inl err, m')"
  shows "retryable err \<and> statusCode err = 429 \<and>
         (\<exists>entry. m' (limit_key u (operation_name op)) = Some entry \<and>
            (op = api_call \<longrightarrow> err = rate_limit_error (show_int (ceil_div_1000 (resetAt entry - now)))) \<and>
            (op = create_sandbox \<longrightarrow> err = sandbox_quota_error (retry_text (hourlyResetAt entry) now)))"
  using assms
  by (cases op)
     (auto simp: checkLimit_def Let_def rate_limit_error_def sandbox_quota_error_def retry_text_def
        split: if_splits)

subsection \<open>The daily execution-time quota\<close>

lemma recordExecutionTime_in_window:
  assumes "m (limit_key u ''execution_time'') = Some e" and "now \<le> or0 (dailyResetAt e)"
  shows "recordExecutionTime m now u tier d =
           (if or0 (dailyExecutionMs e) + d > executionTimePerDay (QUOTA_TIERS tier)
            then Inl daily_quota_error else Inr (),
            m(limit_key u ''execution_time'' \<mapsto> e\<lparr>dailyExecutionMs := Some (or0 (dailyExecutionMs e) + d)\<rparr>))"
  using assms by (simp add: recordExecutionTime_def record_refresh_def Let_def)

lemma record_run_exhausted:
  assumes "m (limit_key u ''execution_time'') = Some e"
    and "or0 (dailyExecutionMs e) > executionTimePerDay (QUOTA_TIERS tier)"
    and "\<forall>(t, d) \<in> set calls. t \<le> or0 (dailyResetAt e) \<and> 0 \<le> d"
  shows "fst (record_run m u tier calls) = replicate (length calls) (Inl daily_quota_error)"
  using assms
proof (induction calls arbitrary: m e)
  case Nil
  then show ?case by simp
next
  case (Cons c calls)
  obtain t d where c: "c = (t, d)" by (cases c)
  let ?k = "limit_key u ''execution_time''"
  let ?e' = "e\<lparr>dailyExecutionMs := Some (or0 (dailyExecutionMs e) + d)\<rparr>"
  from Cons.prems c have t: "t \<le> or0 (dailyResetAt e)" and d: "0 \<le> d" by auto
  have step: "recordExecutionTime m t u tier d = (Inl daily_quota_error, m(?k \<mapsto> ?e'))"
    using recordExecutionTime_in_window [of m u e t tier d] Cons.prems(1,2) t d by simp
  have "fst (record_run (m(?k \<mapsto> ?e')) u tier calls) = replicate (length calls) (Inl daily_quota_error)"
  proof (rule Cons.IH)
    show "(m(?k \<mapsto> ?e')) ?k = Some ?e'" by simp
    show "executionTimePerDay (QUOTA_TIERS tier) < or0 (dailyExecutionMs ?e')"
      using Cons.prems(2) d by (simp add: or0_def)
    show "\<forall>(t, d) \<in> set calls. t \<le> or0 (dailyResetAt ?e') \<and> 0 \<le> d"
      using Cons.prems(3) by simp
  qed
  then show ?case using step c by (simp add: case_prod_beta)
qed

text \<open>
  C10, as amended. \<open>recordExecutionTime\<close> adds the duration to the caller's daily
  counter \<open>c\<close> (0 when the entry is absent or its daily window has lapsed) before it
  compares with the ceiling: it throws QUOTA_EXCEEDED exactly when \<open>c + d\<close> is strictly
  above the ceiling, a total equal to the ceiling is accepted, the stored counter is
  \<open>c + d\<close> in both outcomes, and after a throw every later call of that caller under the
  same tier and with a duration that is not negative, made no later than the stored daily
  reset time, throws as well.
\<close>

theorem recordExecutionTime_adds_before_check:
  assumes c: "c = (case m (limit_key u ''execution_time'') of
                     None \<Rightarrow> 0
                   | Some e \<Rightarrow> if now > or0 (dailyResetAt e) then 0 else or0 (dailyExecutionMs e))"
    and run: "recordExecutionTime m now u tier d = (res, m')"
  shows "(res = Inl daily_quota_error \<longleftrightarrow> c + d > executionTimePerDay (QUOTA_TIERS tier))
       \<and> (res = Inr () \<longleftrightarrow> c + d \<le> executionTimePerDay (QUOTA_TIERS tier))
       \<and> code daily_quota_error = QUOTA_EXCEEDED
       \<and> (\<exists>e'. m' (limit_key u ''execution_time'') = Some e'
              \<and> dailyExecutionMs e' = Some (c + d)
              \<and> (c + d > executionTimePerDay (QUOTA_TIERS tier) \<longrightarrow>
                   (\<forall>calls. (\<forall>(t, d') \<in> set calls. t \<le> or0 (dailyResetAt e') \<and> 0 \<le> d') \<longrightarrow>
                      fst (record_run m' u tier calls)
                        = replicate (length calls) (Inl daily_quota_error))))"
proof -
  let ?k = "limit_key u ''execution_time''"
  let ?lim = "executionTimePerDay (QUOTA_TIERS tier)"
  let ?entry = "record_refresh m now ?k"
  let ?e' = "?entry\<lparr>dailyExecutionMs := Some (c + d)\<rparr>"
  have c_eq: "or0 (dailyExecutionMs ?entry) = c"
    using c by (simp add: record_refresh_def record_entry_def or0_def split: option.splits)
  have res: "res = (if c + d > ?lim then Inl daily_quota_error else Inr ())"
    and m': "m' = m(?k \<mapsto> ?e')"
    using run c_eq by (auto simp: recordExecutionTime_def Let_def split: if_splits)
  have stored: "m' ?k = Some ?e'" using m' by simp
  have later: "fst (record_run m' u tier calls) = replicate (length calls) (Inl daily_quota_error)"
    if over: "c + d > ?lim" and ok: "\<forall>(t, d') \<in> set calls. t \<le> or0 (dailyResetAt ?e') \<and> 0 \<le> d'"
    for calls
    using stored _ ok by (rule record_run_exhausted) (simp add: or0_def over)
  show ?thesis
    using res stored later by (auto simp: daily_quota_error_def)
qed


text \<open>
  The free tier: a first call recording 3600001 ms throws, and so do the next two calls,
  the second of them made at the last millisecond of the daily window.
\<close>

theorem recordExecutionTime_adds_before_check_witness:
  "fst (recordExecutionTime Map.empty 0 ''u'' free 3600001) = Inl daily_quota_error
   \<and> fst (record_run (snd (recordExecutionTime Map.empty 0 ''u'' free 3600001)) ''u'' free
            [(1, 0), (86400000, 5)])
       = [Inl daily_quota_error, Inl daily_quota_error]"
proof -
  let ?k = "limit_key ''u'' ''execution_time''"
  let ?m' = "[?k \<mapsto> (record_entry 0)\<lparr>dailyExecutionMs := Some 3600001\<rparr>]"
  have run: "recordExecutionTime Map.empty 0 ''u'' free 3600001 = (Inl daily_quota_error, ?m')"
    by (simp add: recordExecutionTime_def record_refresh_def record_entry_def or0_def Let_def)
  have c: "(0::int) = (case Map.empty ?k of
                         None \<Rightarrow> 0
                       | Some e \<Rightarrow> if 0 > or0 (dailyResetAt e) then 0 else or0 (dailyExecutionMs e))"
    by simp
  let ?calls = "[(1::int, 0::int), (86400000, 5)]"
  from recordExecutionTime_adds_before_check [OF c run]
  have "\<forall>calls. (\<forall>(t, d') \<in> set calls. t \<le> (86400000::int) \<and> 0 \<le> d') \<longrightarrow>
          fst (record_run ?m' ''u'' free calls) = replicate (length calls) (Inl daily_quota_error)"
    by (simp add: record_entry_def or0_def)
  then have "(\<forall>(t, d') \<in> set ?calls. t \<le> (86400000::int) \<and> 0 \<le> d') \<longrightarrow>
          fst (record_run ?m' ''u'' free ?calls) = replicate (length ?calls) (Inl daily_quota_error)"
    by blast
  moreover have "\<forall>(t, d') \<in> set ?calls. t \<le> (86400000::int) \<and> 0 \<le> d'" by simp
  ultimately have "fst (record_run ?m' ''u'' free ?calls)
                     = replicate (length ?calls) (Inl daily_quota_error)"
    by blast
  moreover have "replicate (length ?calls) (Inl daily_quota_error :: MCPError + unit)
                   = [Inl daily_quota_error, Inl daily_quota_error]"
    by simp
  ultimately show ?thesis by (simp only: run fst_conv snd_conv simp_thms)
qed

text \<open>
  C10, as stated, fails: the duration is not checked for its sign and the tier is taken
  anew at each call. On the free tier a first call recording 3600001 ms throws; one
  millisecond later, within the same daily window, a call recording -2 ms returns
  normally (the total is back below the ceiling), and so does a call recording 0 ms
  under tier pro (the total is compared with the higher ceiling).
\<close>

theorem recordExecutionTime_later_call_can_pass:
  "fst (recordExecutionTime Map.empty 0 ''u'' free 3600001) = Inl daily_quota_error
   \<and> snd (recordExecutionTime Map.empty 0 ''u'' free 3600001) (limit_key ''u'' ''execution_time'')
       = Some \<lparr>count = 0, resetAt = 60000, hourlyCount = None, hourlyResetAt = None,
               dailyExecutionMs = Some 3600001, dailyResetAt = Some 86400000\<rparr>
   \<and> fst (recordExecutionTime (snd (recordExecutionTime Map.empty 0 ''u'' free 3600001))
            1 ''u'' free (- 2)) = Inr ()
   \<and> fst (recordExecutionTime (snd (recordExecutionTime Map.empty 0 ''u'' free 3600001))
            1 ''u'' pro 0) = Inr ()"
  by (simp add: recordExecutionTime_def record_refresh_def record_entry_def or0_def
        limit_key_def Let_def)

subsection \<open>The hourly ceiling of create_sandbox\<close>

text \<open>
  C1. The claim holds for api_call (\<open>checkLimit_api_ceiling\<close>) and fails for
  create_sandbox: the whole entry, \<open>hourlyCount\<close> included, is replaced as soon as the
  minute window has lapsed. On the free tier (5 per hour) five calls at 0..4 ms are
  accepted and leave \<open>hourlyResetAt = 3600000\<close>; a sixth call at 5 ms is rejected, but a
  sixth call at 60001 ms, well inside the same hour, is accepted.
\<close>

theorem checkLimit_hourly_quota_lapses_with_minute_window:
  "checkLimit_run Map.empty ''u'' free create_sandbox [0, 1, 2, 3, 4]
     = ([Inr True, Inr True, Inr True, Inr True, Inr True],
        [limit_key ''u'' ''create_sandbox'' \<mapsto>
           \<lparr>count = 5, resetAt = 60000, hourlyCount = Some 5, hourlyResetAt = Some 3600000,
            dailyExecutionMs = Some 0, dailyResetAt = Some 86400000\<rparr>])
   \<and> fst (checkLimit (snd (checkLimit_run Map.empty ''u'' free create_sandbox [0, 1, 2, 3, 4]))
            5 ''u'' free create_sandbox)
       = Inl (sandbox_quota_error ''3600'')
   \<and> fst (checkLimit (snd (checkLimit_run Map.empty ''u'' free create_sandbox [0, 1, 2, 3, 4]))
            60001 ''u'' free create_sandbox)
       = Inr True"
  by (simp add: checkLimit_def check_refresh_def check_entry_def limit_key_def or0_def
        truthy_expired_def retry_text_def ceil_div_1000_def show_int_def show_nat.simps
        digit_char_def Let_def)

text \<open>
  C2. Counters stay non-negative under \<open>checkLimit\<close> and, for durations that are not
  negative, under \<open>recordExecutionTime\<close> (\<open>checkLimit_nonneg\<close>,
  \<open>recordExecutionTime_nonneg\<close>; a negative duration can take the daily counter below 0,
  \<open>recordExecutionTime_negative_duration\<close>), and \<open>resetAt\<close> only moves forward
  (\<open>checkLimit_resetAt_forward\<close>), but the hourly counter is reset before its own
  boundary: after one create_sandbox call at 0 ms the entry has \<open>hourlyCount = 1\<close> and
  \<open>hourlyResetAt = 3600000\<close>; a second call at 60001 ms leaves \<open>hourlyCount = 1\<close> (reset
  to 0, then incremented) and \<open>hourlyResetAt = 3660001\<close>.
\<close>

theorem checkLimit_resets_hourly_counter_early:
  "snd (checkLimit Map.empty 0 ''u'' free create_sandbox) (limit_key ''u'' ''create_sandbox'')
     = Some \<lparr>count = 1, resetAt = 60000, hourlyCount = Some 1, hourlyResetAt = Some 3600000,
             dailyExecutionMs = Some 0, dailyResetAt = Some 86400000\<rparr>
   \<and> snd (checkLimit (snd (checkLimit Map.empty 0 ''u'' free create_sandbox))
            60001 ''u'' free create_sandbox) (limit_key ''u'' ''create_sandbox'')
     = Some \<lparr>count = 1, resetAt = 120001, hourlyCount = Some 1, hourlyResetAt = Some 3660001,
             dailyExecutionMs = Some 0, dailyResetAt = Some 86460001\<rparr>"
  by (simp add: checkLimit_def check_refresh_def check_entry_def limit_key_def or0_def
        truthy_expired_def Let_def)

text \<open>
  C7. The two rejections of \<open>checkLimit\<close> are retryable and report the seconds to wait
  (\<open>checkLimit_rejection_shape\<close>); the rejection of \<open>recordExecutionTime\<close> is retryable
  but its message is a fixed text without any number, whatever the clock reads.
\<close>

theorem recordExecutionTime_rejection_has_no_wait_hint:
  "recordExecutionTime Map.empty 0 ''u'' free 3600001
     = (Inl \<lparr>code = QUOTA_EXCEEDED, message = ''Daily execution time quota exceeded'',
              statusCode = 429, retryable = True\<rparr>,
        [limit_key ''u'' ''execution_time'' \<mapsto>
           \<lparr>count = 0, resetAt = 60000, hourlyCount = None, hourlyResetAt = None,
            dailyExecutionMs = Some 3600001, dailyResetAt = Some 86400000\<rparr>])"
  by (simp add: recordExecutionTime_def record_refresh_def record_entry_def or0_def
        daily_quota_error_def Let_def)

section \<open>Properties of the RequestValidator\<close>

subsection \<open>File paths\<close>

text \<open>\<open>includes\<close> finds a contiguous substring; every path segment is one.\<close>

lemma str_includes_iff: "str_includes s pat \<longleftrightarrow> (\<exists>a b. s = a @ pat @ b)"
proof (induction s)
  case Nil
  then show ?case by auto
next
  case (Cons c cs)
  show ?case
  proof
    assume "str_includes (c # cs) pat"
    then consider "prefix pat (c # cs)" | "str_includes cs pat" by auto
    then show "\<exists>a b. c # cs = a @ pat @ b"
    proof cases
      case 1
      then obtain b where "c # cs = pat @ b" by (auto simp: prefix_def)
      then have "c # cs = [] @ pat @ b" by simp
      then show ?thesis by blast
    next
      case 2
      then obtain a b where "cs = a @ pat @ b" using Cons.IH by blast
      then have "c # cs = (c # a) @ pat @ b" by simp
      then show ?thesis by blast
    qed
  next
    assume "\<exists>a b. c # cs = a @ pat @ b"
    then obtain a b where ab: "c # cs = a @ pat @ b" by blast
    show "str_includes (c # cs) pat"
    proof (cases a)
      case Nil
      then have "prefix pat (c # cs)" using ab by (simp add: prefix_def)
      then show ?thesis by simp
    next
      case (Cons x a')
      then have "cs = a' @ pat @ b" using ab by simp
      then show ?thesis using Cons.IH by auto
    qed
  qed
qed

lemma path_segments_nonempty: "path_segments s \<noteq> []"
  by (induction s) (auto split: list.splits)

lemma path_segments_hd: "path_segments s = s0 # ss \<Longrightarrow> prefix s0 s"
  by (induction s arbitrary: s0 ss) (auto split: if_splits list.splits)

lemma path_segments_substring:
  "seg \<in> set (path_segments s) \<Longrightarrow> \<exists>a b. s = a @ seg @ b"
proof (induction s arbitrary: seg)
  case Nil
  then show ?case by simp
next
  case (Cons c cs)
  show ?case
  proof (cases "c = CHR ''/''")
    case True
    with Cons.prems have "seg = [] \<or> seg \<in> set (path_segments cs)" by simp
    then show ?thesis
    proof
      assume "seg = []"
      then have "c # cs = [] @ seg @ (c # cs)" by simp
      then show ?thesis by blast
    next
      assume "seg \<in> set (path_segments cs)"
      then obtain a b where "cs = a @ seg @ b" using Cons.IH by blast
      then have "c # cs = (c # a) @ seg @ b" by simp
      then show ?thesis by blast
    qed
  next
    case False
    obtain s0 ss where ps: "path_segments cs = s0 # ss"
      using path_segments_nonempty [of cs] by (cases "path_segments cs") auto
    with False Cons.prems have "seg = c # s0 \<or> seg \<in> set ss" by simp
    then show ?thesis
    proof
      assume seg: "seg = c # s0"
      have "prefix s0 cs" using ps by (rule path_segments_hd)
      then obtain b where "cs = s0 @ b" by (auto simp: prefix_def)
      then have "c # cs = [] @ seg @ b" using seg by simp
      then show ?thesis by blast
    next
      assume "seg \<in> set ss"
      then have "seg \<in> set (path_segments cs)" using ps by simp
      then obtain a b where "cs = a @ seg @ b" using Cons.IH by blast
      then have "c # cs = (c # a) @ seg @ b" by simp
      then show ?thesis by blast
    qed
  qed
qed


lemma forbidden_loop_iff:
  "forbidden_loop pats p \<longleftrightarrow> (\<forall>pat \<in> set pats. \<not> prefix pat p)"
  by (induction pats) auto

text \<open>
  C6. A path that \<open>validateFilePath\<close> accepts has no \<open>..\<close> segment, does not start with
  \<open>/\<close>, has no drive-letter prefix and starts with none of the forbidden prefixes;
  \<open>src/index.ts\<close> is accepted; \<open>../etc/passwd\<close>, \<open>/etc/passwd\<close>, \<open>.env\<close> and
  \<open>C:/Windows/x\<close> are rejected; on every rejected path \<open>assertValidFilePath\<close> fails with
  the error kind PATH_TRAVERSAL.
\<close>

theorem validateFilePath_sound:
  "(validateFilePath p \<longrightarrow>
      ''..'' \<notin> set (path_segments p) \<and> \<not> prefix ''/'' p \<and> \<not> drive_letter_prefix p
      \<and> (\<forall>pat \<in> set FORBIDDEN_PATHS. \<not> prefix pat p))
   \<and> validateFilePath ''src/index.ts''
   \<and> \<not> validateFilePath ''../etc/passwd''
   \<and> \<not> validateFilePath ''/etc/passwd''
   \<and> \<not> validateFilePath ''.env''
   \<and> \<not> validateFilePath ''C:/Windows/x''
   \<and> (\<not> validateFilePath p \<longrightarrow>
        assertValidFilePath p =
          Inl \<lparr>code = PATH_TRAVERSAL, message = ''Invalid or forbidden file path: '' @ p,
                statusCode = 403, retryable = False\<rparr>)"
proof -
  have seg: "''..'' \<notin> set (path_segments p)" if "\<not> str_includes p ''..''"
  proof
    assume "''..'' \<in> set (path_segments p)"
    then have "\<exists>a b. p = a @ ''..'' @ b" by (rule path_segments_substring)
    then have "str_includes p ''..''" by (simp only: str_includes_iff)
    with that show False by simp
  qed
  have accept: "''..'' \<notin> set (path_segments p) \<and> \<not> prefix ''/'' p \<and> \<not> drive_letter_prefix p
      \<and> (\<forall>pat \<in> set FORBIDDEN_PATHS. \<not> prefix pat p)" if "validateFilePath p"
    using that seg
    by (simp add: validateFilePath_def startsWith_def forbidden_loop_iff split: if_splits)
  have ex: "validateFilePath ''src/index.ts''" "\<not> validateFilePath ''../etc/passwd''"
    "\<not> validateFilePath ''/etc/passwd''" "\<not> validateFilePath ''.env''"
    "\<not> validateFilePath ''C:/Windows/x''"
    by (simp_all add: validateFilePath_def startsWith_def FORBIDDEN_PATHS_def ascii_letter_def)
  show ?thesis using accept ex by (simp add: assertValidFilePath_def)
qed

theorem validateFilePath_sound_witness:
  "validateFilePath ''src/index.ts''
   \<and> ''..'' \<notin> set (path_segments ''src/index.ts'')
   \<and> \<not> prefix ''/'' ''src/index.ts''
   \<and> \<not> prefix ''.env'' ''src/index.ts''
   \<and> \<not> validateFilePath ''.env''
   \<and> assertValidFilePath ''.env'' =
          Inl \<lparr>code = PATH_TRAVERSAL, message = ''Invalid or forbidden file path: .env'',
                statusCode = 403, retryable = False\<rparr>"
  using validateFilePath_sound [of "''src/index.ts''"] validateFilePath_sound [of "''.env''"]
  by (simp add: FORBIDDEN_PATHS_def)

subsection \<open>Repository identifiers\<close>

text \<open>
  For an identifier that is not a property name of \<open>Object.prototype\<close> the predicate is
  membership in the allowlist, and the assertion fails with INVALID_REPO exactly when the
  predicate is false.
\<close>

lemma validateRepoId_own_keys:
  "repoId \<notin> set Object_prototype_properties \<Longrightarrow>
     validateRepoId repoId allowedRepos \<longleftrightarrow> repoId \<in> dom allowedRepos"
  by (auto simp: validateRepoId_def js_in_def)

lemma assertValidRepoId_fails_iff:
  "(\<exists>e. assertValidRepoId repoId allowedRepos = Inl e \<and> code e = INVALID_REPO)
     \<longleftrightarrow> \<not> validateRepoId repoId allowedRepos"
  by (simp add: assertValidRepoId_def)

text \<open>
  C5. The claim fails on identifiers that name an inherited property: with the allowlist
  of the unit test, \<open>constructor\<close> is not configured, yet \<open>validateRepoId\<close> returns true
  and \<open>assertValidRepoId\<close> returns normally.
\<close>

theorem validateRepoId_accepts_inherited_property:
  "''constructor'' \<notin> dom [''owner1/repo1'' \<mapsto> ''token1'', ''owner2/repo2'' \<mapsto> ''token2'']
   \<and> validateRepoId ''constructor'' [''owner1/repo1'' \<mapsto> ''token1'', ''owner2/repo2'' \<mapsto> ''token2'']
   \<and> assertValidRepoId ''constructor'' [''owner1/repo1'' \<mapsto> ''token1'', ''owner2/repo2'' \<mapsto> ''token2'']
       = Inr ()"
  by (simp add: assertValidRepoId_def validateRepoId_def js_in_def Object_prototype_properties_def)

section \<open>Properties of the parameter sanitizer\<close>

text \<open>
  The keys are kept, in order, but for \<open>__proto__\<close>, which is dropped. Under a sensitive
  key the value becomes the marker; under any other key a value that is not an object or
  array is kept, and an object or array is replaced by the sanitised object of its
  entries. Sanitising twice is sanitising once.
\<close>

lemma proto_not_sensitive: "\<not> isSensitive ''__proto__''"
  by code_simp

lemma sanitizeParameters_keys:
  "map fst (sanitizeParameters params) = filter (\<lambda>k. k \<noteq> ''__proto__'') (map fst params)"
  by (induction params rule: sanitizeParameters.induct) (simp_all add: set_property_def)

lemma sanitizeParameters_sensitive:
  "(key, val) \<in> set params \<Longrightarrow> isSensitive key \<Longrightarrow>
     (key, JStr REDACTED) \<in> set (sanitizeParameters params)"
  using proto_not_sensitive
  by (induction params rule: sanitizeParameters.induct) (auto simp: set_property_def)

lemma sanitizeParameters_scalar:
  "(key, val) \<in> set params \<Longrightarrow> key \<noteq> ''__proto__'' \<Longrightarrow> \<not> isSensitive key \<Longrightarrow>
     \<not> is_object val \<Longrightarrow> (key, val) \<in> set (sanitizeParameters params)"
  by (induction params rule: sanitizeParameters.induct) (auto simp: set_property_def)

lemma sanitizeParameters_nested:
  "(key, val) \<in> set params \<Longrightarrow> key \<noteq> ''__proto__'' \<Longrightarrow> \<not> isSensitive key \<Longrightarrow>
     is_object val \<Longrightarrow>
     (key, JObj (sanitizeParameters (Object_entries val))) \<in> set (sanitizeParameters params)"
  by (induction params rule: sanitizeParameters.induct) (auto simp: set_property_def)

lemma sanitizeParameters_idempotent:
  "sanitizeParameters (sanitizeParameters params) = sanitizeParameters params"
  by (induction params rule: sanitizeParameters.induct) (simp_all add: set_property_def)

text \<open>A property named \<open>__proto__\<close> does not reach the result.\<close>

lemma sanitizeParameters_drops_proto_key:
  "sanitizeParameters [(''__proto__'', JStr ''x''), (''name'', JStr ''john'')]
     = [(''name'', JStr ''john'')]"
  by code_simp

text \<open>
  C3. Redaction at any depth and idempotence hold (\<open>sanitizeParameters_sensitive\<close>,
  \<open>sanitizeParameters_nested\<close>, \<open>sanitizeParameters_idempotent\<close>), and scalars pass
  unchanged (\<open>sanitizeParameters_scalar\<close>), but an array under a non-matching key does
  not: \<open>typeof\<close> of an array is \<open>'object'\<close>, so the array is rebuilt as an object keyed
  by its indices.
\<close>

theorem sanitizeParameters_turns_array_into_object:
  "\<not> isSensitive ''tags''
   \<and> sanitizeParameters [(''tags'', JArr [JStr ''a'', JStr ''b''])]
       = [(''tags'', JObj [(''0'', JStr ''a''), (''1'', JStr ''b'')])]"
  by code_simp

section \<open>Properties of the AuditLogger\<close>

text \<open>
  C9. Whatever the arguments and whatever the persistence step does, \<open>log\<close> returns
  normally. When the persistence step throws, the ledger is left as it was and the failure
  is written to the logger and to \<open>console.error\<close>; when it succeeds, the ledger is the one
  it returned and nothing is written to \<open>console.error\<close>.
\<close>

theorem log_returns_normally:
  "\<exists>env'. log sha256 persist now_iso env userId toolName params res executionTimeMs err sandboxId
             = Inr env'
     \<and> (case persist (make_row sha256 now_iso userId toolName params res executionTimeMs err sandboxId)
                (ledger env) of
          Inl thrown \<Rightarrow>
            ledger env' = ledger env
            \<and> logger_lines env' = logger_lines env @ [Error ''CRITICAL: Audit logging failed'']
            \<and> console_error env' = console_error env @ [''CRITICAL: Audit logging failed: '' @ thrown]
        | Inr db' \<Rightarrow>
            ledger env' = db'
            \<and> logger_lines env' = logger_lines env @ [Info ''audit logged'']
            \<and> console_error env' = console_error env)"
  by (cases "persist (make_row sha256 now_iso userId toolName params res executionTimeMs err sandboxId)
               (ledger env)")
     (simp_all add: log_def log_try_def)

subsection \<open>The serialisation is injective\<close>

text \<open>
  A decimal rendering consists of digits, determines its number, and ends where the
  digits end.
\<close>

lemma below_10_cases:
  "(d::nat) < 10 \<Longrightarrow> d = 0 \<or> d = 1 \<or> d = 2 \<or> d = 3 \<or> d = 4 \<or> d = 5 \<or> d = 6 \<or> d = 7 \<or> d = 8 \<or> d = 9"
  by arith

lemma digit_char_props:
  assumes "d < 10"
  shows "is_digit (digit_char d)" and "digit_val (digit_char d) = d"
  using below_10_cases [OF assms] by (auto simp: digit_char_def is_digit_def digit_val_def)

lemma show_nat_digits: "\<forall>c \<in> set (show_nat n). is_digit c"
proof (induction n rule: show_nat.induct)
  case (1 n)
  show ?case
  proof (cases "n < 10")
    case True
    then show ?thesis by (subst show_nat.simps) (simp add: digit_char_props)
  next
    case False
    then show ?thesis using 1 by (subst show_nat.simps) (simp add: digit_char_props)
  qed
qed

lemma show_nat_nonempty: "show_nat n \<noteq> []"
  by (subst show_nat.simps) simp

lemma nat_of_digits_show_nat: "nat_of_digits (show_nat n) = n"
proof (induction n rule: show_nat.induct)
  case (1 n)
  show ?case
  proof (cases "n < 10")
    case True
    then show ?thesis by (subst show_nat.simps) (simp add: nat_of_digits_def digit_char_props)
  next
    case False
    then have "nat_of_digits (show_nat (n div 10)) = n div 10" using 1 by simp
    then show ?thesis using False
      by (subst show_nat.simps) (simp add: nat_of_digits_def digit_char_props)
  qed
qed

lemma show_nat_inj: "show_nat n = show_nat m \<Longrightarrow> n = m"
  by (metis nat_of_digits_show_nat)

lemma takeWhile_digits_append:
  assumes "\<forall>c \<in> set ds. is_digit c" and "nondigit_start r"
  shows "takeWhile is_digit (ds @ r) = ds" and "dropWhile is_digit (ds @ r) = r"
proof -
  have "takeWhile is_digit r = []" and "dropWhile is_digit r = r"
    using assms(2) by (cases r; simp)+
  then show "takeWhile is_digit (ds @ r) = ds" and "dropWhile is_digit (ds @ r) = r"
    using assms(1) by simp_all
qed

lemma show_nat_delimited:
  assumes "show_nat n @ r = show_nat m @ r'" and "nondigit_start r" and "nondigit_start r'"
  shows "n = m \<and> r = r'"
proof -
  have "takeWhile is_digit (show_nat n @ r) = show_nat n" "dropWhile is_digit (show_nat n @ r) = r"
    using takeWhile_digits_append [OF show_nat_digits assms(2)] by simp_all
  moreover have "takeWhile is_digit (show_nat m @ r') = show_nat m"
    "dropWhile is_digit (show_nat m @ r') = r'"
    using takeWhile_digits_append [OF show_nat_digits assms(3)] by simp_all
  ultimately have "show_nat n = show_nat m" and "r = r'" using assms(1) by simp_all
  then show ?thesis using show_nat_inj by simp
qed

lemma show_nat_first: "\<exists>c cs. show_nat n = c # cs \<and> is_digit c"
  using show_nat_digits [of n] show_nat_nonempty [of n] by (cases "show_nat n") auto

lemma show_int_first: "\<exists>c cs. show_int i = c # cs \<and> (is_digit c \<or> c = CHR ''-'')"
proof (cases "i < 0")
  case True
  then show ?thesis by (simp add: show_int_def)
next
  case False
  obtain c cs where "show_nat (nat i) = c # cs" "is_digit c" using show_nat_first by blast
  then show ?thesis using False by (simp add: show_int_def)
qed

lemma show_int_delimited:
  assumes "show_int i @ r = show_int j @ r'" and "nondigit_start r" and "nondigit_start r'"
  shows "i = j \<and> r = r'"
proof -
  have minus: "\<not> is_digit CHR ''-''" by (simp add: is_digit_def)
  consider "i < 0" "j < 0" | "i < 0" "\<not> j < 0" | "\<not> i < 0" "j < 0" | "\<not> i < 0" "\<not> j < 0"
    by blast
  then show ?thesis
  proof cases
    case 1
    then have "show_nat (nat (- i)) @ r = show_nat (nat (- j)) @ r'"
      using assms(1) by (simp add: show_int_def)
    then have "nat (- i) = nat (- j) \<and> r = r'" using assms(2,3) by (rule show_nat_delimited)
    then show ?thesis using 1 by arith
  next
    case 2
    obtain c cs where "show_nat (nat j) = c # cs" "is_digit c" using show_nat_first by blast
    then show ?thesis using 2 assms(1) minus by (simp add: show_int_def)
  next
    case 3
    obtain c cs where "show_nat (nat i) = c # cs" "is_digit c" using show_nat_first by blast
    then show ?thesis using 3 assms(1) minus by (auto simp: show_int_def)
  next
    case 4
    then have "show_nat (nat i) @ r = show_nat (nat j) @ r'"
      using assms(1) by (simp add: show_int_def)
    then have "nat i = nat j \<and> r = r'" using assms(2,3) by (rule show_nat_delimited)
    then show ?thesis using 4 by arith
  qed
qed

text \<open>
  The escapes of two characters never start alike unless the characters are equal, and
  none starts with a quote: a quoted string ends at its closing quote.
\<close>

lemma below_16_cases:
  "(d::nat) < 16 \<Longrightarrow> d = 0 \<or> d = 1 \<or> d = 2 \<or> d = 3 \<or> d = 4 \<or> d = 5 \<or> d = 6 \<or> d = 7 \<or> d = 8
     \<or> d = 9 \<or> d = 10 \<or> d = 11 \<or> d = 12 \<or> d = 13 \<or> d = 14 \<or> d = 15"
  by arith

lemma hex_val_hex_digit: "d < 16 \<Longrightarrow> hex_val (hex_digit d) = d"
  using below_16_cases [of d] by (auto simp: hex_digit_def hex_val_def is_digit_def)

lemma hex_pair_inj:
  assumes "(of_char c :: nat) < 32" and "(of_char d :: nat) < 32"
    and "hex_digit (of_char c div 16) = hex_digit (of_char d div 16)"
    and "hex_digit (of_char c mod 16) = hex_digit (of_char d mod 16)"
  shows "c = d"
proof -
  let ?m = "of_char c :: nat" and ?n = "of_char d :: nat"
  have "?m div 16 < 16" "?n div 16 < 16" using assms(1,2) by simp_all
  then have "?m div 16 = ?n div 16" using assms(3) by (metis hex_val_hex_digit)
  moreover have "?m mod 16 = ?n mod 16" using assms(4)
    by (metis hex_val_hex_digit mod_less_divisor zero_less_numeral)
  ultimately have "?m = ?n" by (metis div_mult_mod_eq)
  then show ?thesis by simp
qed

lemma escape_char_first:
  "\<exists>a t. escape_char c = a # t \<and> a \<noteq> CHR 0x22"
  by (simp add: escape_char_def)

lemma escape_char_cases:
  "(escape_char c = [c] \<and> c \<noteq> CHR 0x5C)
   \<or> (\<exists>b. escape_char c = [CHR 0x5C, b] \<and> b \<noteq> CHR ''u'' \<and> c = short_unescape b)
   \<or> (escape_char c = [CHR 0x5C, CHR ''u'', CHR ''0'', CHR ''0'',
                        hex_digit (of_char c div 16), hex_digit (of_char c mod 16)]
       \<and> (of_char c :: nat) < 32)"
  by (simp add: escape_char_def short_unescape_def)

lemma escape_char_prefix_code:
  assumes eq: "escape_char c @ x = escape_char d @ y"
  shows "c = d \<and> x = y"
proof -
  let ?hex = "\<lambda>e. [CHR 0x5C, CHR ''u'', CHR ''0'', CHR ''0'',
                  hex_digit (of_char e div 16), hex_digit (of_char e mod 16)]"
  consider (lit) "escape_char c = [c]" "c \<noteq> CHR 0x5C"
    | (short) b where "escape_char c = [CHR 0x5C, b]" "b \<noteq> CHR ''u''" "c = short_unescape b"
    | (hex) "escape_char c = ?hex c" "(of_char c :: nat) < 32"
    using escape_char_cases [of c] by blast
  then show ?thesis
  proof cases
    case lit
    consider (lit') "escape_char d = [d]"
      | (short') b' where "escape_char d = [CHR 0x5C, b']"
      | (hex') "escape_char d = ?hex d"
      using escape_char_cases [of d] by blast
    then show ?thesis
    proof cases
      case lit'
      from eq have "[c] @ x = [d] @ y" unfolding lit(1) lit' .
      then show ?thesis by simp
    next
      case short'
      from eq have "[c] @ x = [CHR 0x5C, b'] @ y" unfolding lit(1) short' .
      then show ?thesis using lit(2) by simp
    next
      case hex'
      from eq have "[c] @ x = ?hex d @ y" unfolding lit(1) hex' .
      then show ?thesis using lit(2) by simp
    qed
  next
    case short
    consider (lit') "escape_char d = [d]" "d \<noteq> CHR 0x5C"
      | (short') b' where "escape_char d = [CHR 0x5C, b']" "d = short_unescape b'"
      | (hex') "escape_char d = ?hex d"
      using escape_char_cases [of d] by blast
    then show ?thesis
    proof cases
      case lit'
      from eq have "[CHR 0x5C, b] @ x = [d] @ y" unfolding short(1) lit'(1) .
      then show ?thesis using lit'(2) by simp
    next
      case short'
      from eq have "[CHR 0x5C, b] @ x = [CHR 0x5C, b'] @ y" unfolding short(1) short'(1) .
      then have "b = b'" and "x = y" by simp_all
      then show ?thesis using short(3) short'(2) by simp
    next
      case hex'
      from eq have "[CHR 0x5C, b] @ x = ?hex d @ y" unfolding short(1) hex' .
      then show ?thesis using short(2) by simp
    qed
  next
    case hex
    consider (lit') "escape_char d = [d]" "d \<noteq> CHR 0x5C"
      | (short') b' where "escape_char d = [CHR 0x5C, b']" "b' \<noteq> CHR ''u''"
      | (hex') "escape_char d = ?hex d" "(of_char d :: nat) < 32"
      using escape_char_cases [of d] by blast
    then show ?thesis
    proof cases
      case lit'
      from eq have "?hex c @ x = [d] @ y" unfolding hex(1) lit'(1) .
      then show ?thesis using lit'(2) by simp
    next
      case short'
      from eq have "?hex c @ x = [CHR 0x5C, b'] @ y" unfolding hex(1) short'(1) .
      then show ?thesis using short'(2) by simp
    next
      case hex'
      from eq have "?hex c @ x = ?hex d @ y" unfolding hex(1) hex'(1) .
      then have "hex_digit (of_char c div 16) = hex_digit (of_char d div 16)"
        and "hex_digit (of_char c mod 16) = hex_digit (of_char d mod 16)" and "x = y"
        by simp_all
      then show ?thesis using hex_pair_inj [OF hex(2) hex'(2)] by simp
    qed
  qed
qed

lemma quote_body_delimited:
  "quote_body s @ r = quote_body s' @ r' \<Longrightarrow> s = s' \<and> r = r'"
proof (induction s arbitrary: s')
  case Nil
  show ?case
  proof (cases s')
    case Nil
    then show ?thesis using Nil.prems by simp
  next
    case (Cons d ds)
    obtain a t where "escape_char d = a # t" "a \<noteq> CHR 0x22" using escape_char_first by blast
    then show ?thesis using Nil.prems Cons by simp
  qed
next
  case (Cons c cs)
  show ?case
  proof (cases s')
    case Nil
    obtain a t where "escape_char c = a # t" "a \<noteq> CHR 0x22" using escape_char_first by blast
    then show ?thesis using Cons.prems Nil by simp
  next
    case (Cons d ds)
    then have "escape_char c @ (quote_body cs @ r) = escape_char d @ (quote_body ds @ r')"
      using Cons.prems by simp
    then have "c = d" and "quote_body cs @ r = quote_body ds @ r'"
      using escape_char_prefix_code by blast+
    then show ?thesis using Cons.IH Cons by simp
  qed
qed

lemma quote_delimited:
  assumes "quote s @ r = quote s' @ r'"
  shows "s = s' \<and> r = r'"
proof -
  from assms have "quote_body s @ r = quote_body s' @ r'" by (simp add: quote_def)
  then show ?thesis by (rule quote_body_delimited)
qed

text \<open>
  A value followed by anything that does not start with a digit can be read back in one
  way only; elements and members carry their closing bracket and need no such condition.
\<close>

lemma stringify_first: "\<exists>c cs. stringify v = c # cs \<and> first_ok v c"
proof (cases v)
  case (JNum i)
  then show ?thesis using show_int_first [of i] by simp
qed (simp_all add: quote_def)

lemma first_ok_tag: "first_ok v c \<Longrightarrow> first_ok v' c \<Longrightarrow> tag v = tag v'"
  by (cases v; cases v') (auto simp: is_digit_def)

lemma first_ok_not_close: "first_ok v c \<Longrightarrow> c \<noteq> CHR '']''"
  by (cases v) (auto simp: is_digit_def)

lemma same_tag:
  assumes "stringify v @ r = stringify v' @ r'"
  shows "tag v = tag v'"
proof -
  obtain c cs where c: "stringify v = c # cs" "first_ok v c" using stringify_first by blast
  obtain d ds where d: "stringify v' = d # ds" "first_ok v' d" using stringify_first by blast
  from assms c(1) d(1) have "c = d" by simp
  then show ?thesis using c(2) d(2) first_ok_tag by blast
qed

lemma stringify_not_close: "stringify v @ r \<noteq> CHR '']'' # r'"
proof -
  obtain c cs where c: "stringify v = c # cs" "first_ok v c" using stringify_first by blast
  then show ?thesis using first_ok_not_close [of v c] by simp
qed

lemma stringify_delimited_all:
  "\<forall>v' r r'. stringify v @ r = stringify v' @ r' \<longrightarrow> nondigit_start r \<longrightarrow> nondigit_start r'
     \<longrightarrow> v = v' \<and> r = r'"
  and "\<forall>vs' r r'. stringify_elements vs @ r = stringify_elements vs' @ r' \<longrightarrow> vs = vs' \<and> r = r'"
  and "\<forall>kvs' r r'. stringify_members kvs @ r = stringify_members kvs' @ r' \<longrightarrow> kvs = kvs' \<and> r = r'"
proof (induction v and vs and kvs rule: stringify_stringify_elements_stringify_members.induct)
  case 1
  show ?case
  proof (intro allI impI)
    fix v' r r'
    assume eq: "stringify JNull @ r = stringify v' @ r'"
    from same_tag [OF eq] show "JNull = v' \<and> r = r'" using eq by (cases v') simp_all
  qed
next
  case (2 b)
  show ?case
  proof (intro allI impI)
    fix v' r r'
    assume eq: "stringify (JBool b) @ r = stringify v' @ r'"
    from same_tag [OF eq] show "JBool b = v' \<and> r = r'" using eq
      by (cases v') (auto split: if_splits)
  qed
next
  case (3 n)
  show ?case
  proof (intro allI impI)
    fix v' r r'
    assume eq: "stringify (JNum n) @ r = stringify v' @ r'"
      and nd: "nondigit_start r" "nondigit_start r'"
    from same_tag [OF eq] obtain m where v': "v' = JNum m" by (cases v') simp_all
    then show "JNum n = v' \<and> r = r'" using eq nd show_int_delimited [of n r m r'] by simp
  qed
next
  case (4 s)
  show ?case
  proof (intro allI impI)
    fix v' r r'
    assume eq: "stringify (JStr s) @ r = stringify v' @ r'"
    from same_tag [OF eq] obtain t where v': "v' = JStr t" by (cases v') simp_all
    then show "JStr s = v' \<and> r = r'" using eq quote_delimited [of s r t r'] by simp
  qed
next
  case (5 vs)
  note IH = "5.IH" [rule_format]
  show ?case
  proof (intro allI impI)
    fix v' r r'
    assume eq: "stringify (JArr vs) @ r = stringify v' @ r'"
    from same_tag [OF eq] obtain ws where v': "v' = JArr ws" by (cases v') simp_all
    then have "stringify_elements vs @ r = stringify_elements ws @ r'" using eq by simp
    then have "vs = ws \<and> r = r'" by (rule IH)
    then show "JArr vs = v' \<and> r = r'" using v' by simp
  qed
next
  case (6 kvs)
  note IH = "6.IH" [rule_format]
  show ?case
  proof (intro allI impI)
    fix v' r r'
    assume eq: "stringify (JObj kvs) @ r = stringify v' @ r'"
    from same_tag [OF eq] obtain ms where v': "v' = JObj ms" by (cases v') simp_all
    then have "stringify_members kvs @ r = stringify_members ms @ r'" using eq by simp
    then have "kvs = ms \<and> r = r'" by (rule IH)
    then show "JObj kvs = v' \<and> r = r'" using v' by simp
  qed
next
  case 7
  show ?case
  proof (intro allI impI)
    fix vs' r r'
    assume eq: "stringify_elements [] @ r = stringify_elements vs' @ r'"
    show "[] = vs' \<and> r = r'"
    proof -
      consider (nil) "vs' = []" | (one) w where "vs' = [w]"
        | (more) w x xs where "vs' = w # x # xs"
        by (cases vs' rule: stringify_elements.cases) auto
      then show ?thesis
      proof cases
      case nil
      then show ?thesis using eq by simp
    next
      case (one w)
      then show ?thesis using eq stringify_not_close [of w "'']'' @ r'" r] by simp
    next
      case (more w x xs)
      then show ?thesis
        using eq stringify_not_close [of w "'','' @ stringify_elements (x # xs) @ r'" r]
        by simp
      qed
    qed
  qed
next
  case (8 v)
  note IH = "8.IH" [rule_format]
  show ?case
  proof (intro allI impI)
    fix vs' r r'
    assume eq: "stringify_elements [v] @ r = stringify_elements vs' @ r'"
    have nd: "nondigit_start (CHR '']'' # r)" "nondigit_start (CHR '']'' # r')"
      by (simp_all add: is_digit_def)
    show "[v] = vs' \<and> r = r'"
    proof -
      consider (nil) "vs' = []" | (one) w where "vs' = [w]"
        | (more) w x xs where "vs' = w # x # xs"
        by (cases vs' rule: stringify_elements.cases) auto
      then show ?thesis
      proof cases
      case nil
      then show ?thesis using eq stringify_not_close [of v "'']'' @ r" r'] by simp
    next
      case (one w)
      then have "stringify v @ (CHR '']'' # r) = stringify w @ (CHR '']'' # r')"
        using eq by simp
      then have "v = w \<and> CHR '']'' # r = CHR '']'' # r'" using nd by (rule IH)
      then show ?thesis using one by simp
    next
      case (more w x xs)
      have nd': "nondigit_start (CHR '','' # stringify_elements (x # xs) @ r')"
        by (simp add: is_digit_def)
      from more have "stringify v @ (CHR '']'' # r)
                     = stringify w @ (CHR '','' # stringify_elements (x # xs) @ r')"
        using eq by simp
      then have "v = w \<and> CHR '']'' # r = CHR '','' # stringify_elements (x # xs) @ r'"
        using nd(1) nd' by (rule IH)
      then show ?thesis by simp
      qed
    qed
  qed
next
  case (9 v w vs)
  note IH1 = "9.IH"(1) [rule_format] and IH2 = "9.IH"(2) [rule_format]
  show ?case
  proof (intro allI impI)
    fix vs' r r'
    assume eq: "stringify_elements (v # w # vs) @ r = stringify_elements vs' @ r'"
    have nd: "nondigit_start (CHR '','' # stringify_elements (w # vs) @ r)"
      by (simp add: is_digit_def)
    show "v # w # vs = vs' \<and> r = r'"
    proof -
      consider (nil) "vs' = []" | (one) w where "vs' = [w]"
        | (more) w x xs where "vs' = w # x # xs"
        by (cases vs' rule: stringify_elements.cases) auto
      then show ?thesis
      proof cases
      case nil
      then show ?thesis
        using eq stringify_not_close [of v "'','' @ stringify_elements (w # vs) @ r" r']
        by simp
    next
      case (one x)
      have nd': "nondigit_start (CHR '']'' # r')" by (simp add: is_digit_def)
      from one have "stringify v @ (CHR '','' # stringify_elements (w # vs) @ r)
                     = stringify x @ (CHR '']'' # r')"
        using eq by simp
      then have "v = x \<and> CHR '','' # stringify_elements (w # vs) @ r = CHR '']'' # r'"
        using nd nd' by (rule IH1)
      then show ?thesis by simp
    next
      case (more x y ys)
      have nd': "nondigit_start (CHR '','' # stringify_elements (y # ys) @ r')"
        by (simp add: is_digit_def)
      from more have "stringify v @ (CHR '','' # stringify_elements (w # vs) @ r)
                     = stringify x @ (CHR '','' # stringify_elements (y # ys) @ r')"
        using eq by simp
      then have "v = x \<and> CHR '','' # stringify_elements (w # vs) @ r
                   = CHR '','' # stringify_elements (y # ys) @ r'"
        using nd nd' by (rule IH1)
      then have v: "v = x"
        and "stringify_elements (w # vs) @ r = stringify_elements (y # ys) @ r'"
        by simp_all
      then have "w # vs = y # ys \<and> r = r'" using IH2 by blast
      then show ?thesis using more v by simp
      qed
    qed
  qed
next
  case 10
  show ?case
  proof (intro allI impI)
    fix kvs' r r'
    assume eq: "stringify_members [] @ r = stringify_members kvs' @ r'"
    show "[] = kvs' \<and> r = r'"
    proof -
      consider (nil) "kvs' = []" | (one) k' v' where "kvs' = [(k', v')]"
        | (more) k' v' m' ms' where "kvs' = (k', v') # m' # ms'"
        by (cases kvs' rule: stringify_members.cases) auto
      then show ?thesis
      proof cases
      case nil
      then show ?thesis using eq by simp
    next
      case (one k v)
      then show ?thesis using eq by (simp add: quote_def)
    next
      case (more k v m ms)
      then show ?thesis using eq by (simp add: quote_def)
      qed
    qed
  qed
next
  case (11 k v)
  note IH = "11.IH" [rule_format]
  show ?case
  proof (intro allI impI)
    fix kvs' r r'
    assume eq: "stringify_members [(k, v)] @ r = stringify_members kvs' @ r'"
    have nd: "nondigit_start (CHR ''}'' # r)" by (simp add: is_digit_def)
    show "[(k, v)] = kvs' \<and> r = r'"
    proof -
      consider (nil) "kvs' = []" | (one) k' v' where "kvs' = [(k', v')]"
        | (more) k' v' m' ms' where "kvs' = (k', v') # m' # ms'"
        by (cases kvs' rule: stringify_members.cases) auto
      then show ?thesis
      proof cases
      case nil
      then show ?thesis using eq by (simp add: quote_def)
    next
      case (one k' v')
      have nd': "nondigit_start (CHR ''}'' # r')" by (simp add: is_digit_def)
      from one have "quote k @ (CHR '':'' # stringify v @ CHR ''}'' # r)
                   = quote k' @ (CHR '':'' # stringify v' @ CHR ''}'' # r')"
        using eq by simp
      then have "k = k' \<and> CHR '':'' # stringify v @ CHR ''}'' # r
                   = CHR '':'' # stringify v' @ CHR ''}'' # r'"
        by (rule quote_delimited)
      then have k: "k = k'"
        and "stringify v @ (CHR ''}'' # r) = stringify v' @ (CHR ''}'' # r')"
        by simp_all
      then have "v = v' \<and> CHR ''}'' # r = CHR ''}'' # r'" using nd nd' IH by blast
      then show ?thesis using one k by simp
    next
      case (more k' v' m ms)
      have nd': "nondigit_start (CHR '','' # stringify_members (m # ms) @ r')"
        by (simp add: is_digit_def)
      from more have "quote k @ (CHR '':'' # stringify v @ CHR ''}'' # r)
                   = quote k' @ (CHR '':'' # stringify v' @ CHR '','' # stringify_members (m # ms) @ r')"
        using eq by simp
      then have "k = k' \<and> CHR '':'' # stringify v @ CHR ''}'' # r
                   = CHR '':'' # stringify v' @ CHR '','' # stringify_members (m # ms) @ r'"
        by (rule quote_delimited)
      then have "stringify v @ (CHR ''}'' # r)
                   = stringify v' @ (CHR '','' # stringify_members (m # ms) @ r')"
        by simp
      then have "v = v' \<and> CHR ''}'' # r = CHR '','' # stringify_members (m # ms) @ r'"
        using nd nd' IH by blast
      then show ?thesis by simp
      qed
    qed
  qed
next
  case (12 k v m ms)
  note IH1 = "12.IH"(1) [rule_format] and IH2 = "12.IH"(2) [rule_format]
  show ?case
  proof (intro allI impI)
    fix kvs' r r'
    assume eq: "stringify_members ((k, v) # m # ms) @ r = stringify_members kvs' @ r'"
    have nd: "nondigit_start (CHR '','' # stringify_members (m # ms) @ r)"
      by (simp add: is_digit_def)
    show "(k, v) # m # ms = kvs' \<and> r = r'"
    proof -
      consider (nil) "kvs' = []" | (one) k' v' where "kvs' = [(k', v')]"
        | (more) k' v' m' ms' where "kvs' = (k', v') # m' # ms'"
        by (cases kvs' rule: stringify_members.cases) auto
      then show ?thesis
      proof cases
      case nil
      then show ?thesis using eq by (simp add: quote_def)
    next
      case (one k' v')
      have nd': "nondigit_start (CHR ''}'' # r')" by (simp add: is_digit_def)
      from one have "quote k @ (CHR '':'' # stringify v @ CHR '','' # stringify_members (m # ms) @ r)
                   = quote k' @ (CHR '':'' # stringify v' @ CHR ''}'' # r')"
        using eq by simp
      then have "k = k' \<and> CHR '':'' # stringify v @ CHR '','' # stringify_members (m # ms) @ r
                   = CHR '':'' # stringify v' @ CHR ''}'' # r'"
        by (rule quote_delimited)
      then have "stringify v @ (CHR '','' # stringify_members (m # ms) @ r)
                   = stringify v' @ (CHR ''}'' # r')"
        by simp
      then have "v = v' \<and> CHR '','' # stringify_members (m # ms) @ r = CHR ''}'' # r'"
        using nd nd' IH1 by blast
      then show ?thesis by simp
    next
      case (more k' v' m' ms')
      have nd': "nondigit_start (CHR '','' # stringify_members (m' # ms') @ r')"
        by (simp add: is_digit_def)
      from more have "quote k @ (CHR '':'' # stringify v @ CHR '','' # stringify_members (m # ms) @ r)
                   = quote k' @ (CHR '':'' # stringify v' @ CHR '','' # stringify_members (m' # ms') @ r')"
        using eq by simp
      then have "k = k' \<and> CHR '':'' # stringify v @ CHR '','' # stringify_members (m # ms) @ r
                   = CHR '':'' # stringify v' @ CHR '','' # stringify_members (m' # ms') @ r'"
        by (rule quote_delimited)
      then have k: "k = k'"
        and "stringify v @ (CHR '','' # stringify_members (m # ms) @ r)
               = stringify v' @ (CHR '','' # stringify_members (m' # ms') @ r')"
        by simp_all
      then have "v = v' \<and> CHR '','' # stringify_members (m # ms) @ r
                   = CHR '','' # stringify_members (m' # ms') @ r'"
        using nd nd' IH1 by blast
      then have v: "v = v'"
        and "stringify_members (m # ms) @ r = stringify_members (m' # ms') @ r'"
        by simp_all
      then have "m # ms = m' # ms' \<and> r = r'" using IH2 by blast
      then show ?thesis using more k v by simp
      qed
    qed
  qed
qed

lemma stringify_inj: "stringify v = stringify v' \<Longrightarrow> v = v'"
  using stringify_delimited_all(1) [of v] by (metis append_Nil2 nondigit_start.simps(1))

subsection \<open>Integrity verification\<close>

text \<open>Two entries with the same hashed object agree on all eight stored fields.\<close>

lemma result_name_inj: "result_name a = result_name b \<Longrightarrow> a = b"
  by (cases a; cases b) simp_all

lemma hash_object_inj:
  assumes "hash_object e = hash_object e'"
  shows "stored_fields e = stored_fields e'"
proof -
  have "error e = error e' \<and> sandbox_id e = sandbox_id e'"
    using assms
    by (cases "error e"; cases "error e'"; cases "sandbox_id e"; cases "sandbox_id e'")
       (simp_all add: hash_object_def)
  then show ?thesis using assms
    by (cases "error e"; cases "sandbox_id e")
       (auto simp: hash_object_def stored_fields_def dest: result_name_inj)
qed

lemma verifyIntegrity_iff:
  "verifyIntegrity sha256 entries \<longleftrightarrow>
     (\<forall>entry \<in> set entries. hash entry = generateHash sha256 entry)"
  by (induction entries) (auto simp: generateHash_def hash_object_def)

text \<open>
  C4. \<open>verifyIntegrity\<close> returns true on every list of entries whose hash is the one
  \<open>generateHash\<close> computes from their stored fields. If an entry carries the hash of an
  original entry but differs from it in a stored field (timestamp, user_id, tool_name,
  parameters, result, error, sandbox_id or execution_time_ms), \<open>verifyIntegrity\<close> returns
  false on every list that holds it, provided the digest does not collide on the two
  serialisations.
\<close>

theorem verifyIntegrity_detects_alteration:
  "((\<forall>entry \<in> set entries. hash entry = generateHash sha256 entry)
      \<longrightarrow> verifyIntegrity sha256 entries)
   \<and> (hash original = generateHash sha256 original
        \<and> stored_fields altered \<noteq> stored_fields original
        \<and> hash altered = hash original
        \<and> no_collision sha256 (stringify (hash_object altered)) (stringify (hash_object original))
      \<longrightarrow> \<not> verifyIntegrity sha256 (before @ altered # after))"
proof (intro conjI impI)
  assume "\<forall>entry \<in> set entries. hash entry = generateHash sha256 entry"
  then show "verifyIntegrity sha256 entries" by (simp only: verifyIntegrity_iff)
next
  assume a: "hash original = generateHash sha256 original
        \<and> stored_fields altered \<noteq> stored_fields original
        \<and> hash altered = hash original
        \<and> no_collision sha256 (stringify (hash_object altered)) (stringify (hash_object original))"
  show "\<not> verifyIntegrity sha256 (before @ altered # after)"
  proof
    assume "verifyIntegrity sha256 (before @ altered # after)"
    then have "hash altered = generateHash sha256 altered" by (simp add: verifyIntegrity_iff)
    then have "sha256 (stringify (hash_object altered)) = sha256 (stringify (hash_object original))"
      using a by (simp add: generateHash_def)
    then have "stringify (hash_object altered) = stringify (hash_object original)"
      using a by (simp add: no_collision_def)
    then have "hash_object altered = hash_object original" by (rule stringify_inj)
    then have "stored_fields altered = stored_fields original" by (rule hash_object_inj)
    then show False using a by simp
  qed
qed

text \<open>
  With the identity as digest: an entry verifies, and the same entry with its duration
  changed from 12 to 13 under the old hash does not.
\<close>

theorem verifyIntegrity_detects_alteration_witness:
  "verifyIntegrity (\<lambda>s. s)
     [\<lparr>timestamp = ''2025-01-01T00:00:00.000Z'', user_id = ''user1'', tool_name = ''write_files'',
       parameters = [(''sandbox_id'', JStr ''sb-1''), (''count'', JNum 2)], result = success,
       error = None, sandbox_id = Some ''sb-1'', execution_time_ms = 12,
       hash = generateHash (\<lambda>s. s)
                \<lparr>timestamp = ''2025-01-01T00:00:00.000Z'', user_id = ''user1'',
                 tool_name = ''write_files'',
                 parameters = [(''sandbox_id'', JStr ''sb-1''), (''count'', JNum 2)],
                 result = success, error = None, sandbox_id = Some ''sb-1'',
                 execution_time_ms = 12\<rparr>\<rparr>]
   \<and> \<not> verifyIntegrity (\<lambda>s. s)
     [\<lparr>timestamp = ''2025-01-01T00:00:00.000Z'', user_id = ''user1'', tool_name = ''write_files'',
       parameters = [(''sandbox_id'', JStr ''sb-1''), (''count'', JNum 2)], result = success,
       error = None, sandbox_id = Some ''sb-1'', execution_time_ms = 13,
       hash = generateHash (\<lambda>s. s)
                \<lparr>timestamp = ''2025-01-01T00:00:00.000Z'', user_id = ''user1'',
                 tool_name = ''write_files'',
                 parameters = [(''sandbox_id'', JStr ''sb-1''), (''count'', JNum 2)],
                 result = success, error = None, sandbox_id = Some ''sb-1'',
                 execution_time_ms = 12\<rparr>\<rparr>]"
proof -
  let ?fields = "\<lparr>timestamp = ''2025-01-01T00:00:00.000Z'', user_id = ''user1'',
                 tool_name = ''write_files'',
                 parameters = [(''sandbox_id'', JStr ''sb-1''), (''count'', JNum 2)],
                 result = success, error = None, sandbox_id = Some ''sb-1'',
                 execution_time_ms = 12\<rparr>"
  let ?original = "\<lparr>timestamp = ''2025-01-01T00:00:00.000Z'', user_id = ''user1'',
       tool_name = ''write_files'',
       parameters = [(''sandbox_id'', JStr ''sb-1''), (''count'', JNum 2)], result = success,
       error = None, sandbox_id = Some ''sb-1'', execution_time_ms = 12,
       hash = generateHash (\<lambda>s. s) ?fields\<rparr>"
  let ?altered = "\<lparr>timestamp = ''2025-01-01T00:00:00.000Z'', user_id = ''user1'',
       tool_name = ''write_files'',
       parameters = [(''sandbox_id'', JStr ''sb-1''), (''count'', JNum 2)], result = success,
       error = None, sandbox_id = Some ''sb-1'', execution_time_ms = 13,
       hash = generateHash (\<lambda>s. s) ?fields\<rparr>"
  have same: "generateHash (\<lambda>s. s) ?original = generateHash (\<lambda>s. s) ?fields"
    by (simp add: generateHash_def hash_object_def)
  have h1: "\<forall>entry \<in> set [?original]. hash entry = generateHash (\<lambda>s. s) entry"
    using same by simp
  have h2: "hash ?original = generateHash (\<lambda>s. s) ?original
        \<and> stored_fields ?altered \<noteq> stored_fields ?original
        \<and> hash ?altered = hash ?original
        \<and> no_collision (\<lambda>s. s) (stringify (hash_object ?altered)) (stringify (hash_object ?original))"
    using same by (simp add: stored_fields_def no_collision_def)
  from verifyIntegrity_detects_alteration [of "[?original]" "\<lambda>s. s" ?original ?altered "[]" "[]"]
  show ?thesis using h1 h2 by (simp only: append_Nil simp_thms)
qed

section \<open>Properties of the message sanitizer\<close>

text \<open>
  The cut comes first: a message of more than 200 characters becomes its first 197
  characters and the marker \<open>...\<close>, 200 characters in all; a shorter one is kept.
\<close>

lemma truncate_message_long:
  assumes "length s > 200"
  shows "truncate_message s = take 197 s @ ''...''" and "length (truncate_message s) = 200"
    and "suffix ''...'' (truncate_message s)"
  using assms by (simp_all add: truncate_message_def suffix_def)

lemma truncate_message_short: "length s \<le> 200 \<Longrightarrow> truncate_message s = s"
  by (simp add: truncate_message_def)

text \<open>Two inputs of the test suite.\<close>

lemma sanitizeErrorMessage_token_example:
  "sanitizeErrorMessage ''Failed with token abc123xyz'' = ''Failed with [REDACTED] [REDACTED]''"
  by code_simp

lemma sanitizeErrorMessage_long_run_example:
  "sanitizeErrorMessage (replicate 300 CHR ''a'') = ''[REDACTED]...''"
  by code_simp

text \<open>
  C8. The cut is made before any substitution and the example of the claim holds
  (\<open>truncate_message_long\<close>, \<open>sanitizeErrorMessage_token_example\<close>), but the
  substitutions that follow can take the marker away: in a message of 206 characters
  that starts with \<open>/home/\<close> and has no space, the path pattern \<open>/home/\S+\<close> matches the
  whole cut string, marker included, and the output is \<open>/[USER]/\<close>.
\<close>

theorem sanitizeErrorMessage_can_lose_truncation_marker:
  "length (''/home/'' @ replicate 200 CHR ''a'') = 206
   \<and> sanitizeErrorMessage (''/home/'' @ replicate 200 CHR ''a'') = ''/[USER]/''"
  by code_simp

end
